theory Spec2Isabelle
  imports Main
begin

section \<open>Strings\<close>

text \<open>
  Strings are lists of \<^typ>\<open>char\<close>, read as the code units below 256. The literal
  texts of the source that are Korean (prompts, panel lines, error messages) appear as
  named constants holding an ASCII gloss; no theorem depends on their wording.
\<close>

abbreviation sq :: char where "sq \<equiv> CHR 0x27"
abbreviation dq :: char where "dq \<equiv> CHR 0x22"
abbreviation bslash :: char where "bslash \<equiv> CHR 0x5C"
abbreviation backtick :: char where "backtick \<equiv> CHR 0x60"

text \<open>The white space of \<open>String.prototype.trim\<close> that lies below code unit 256.\<close>

definition is_ws :: "char \<Rightarrow> bool" where
  "is_ws c = (c \<in> set [CHR 0x09, CHR 0x0A, CHR 0x0B, CHR 0x0C, CHR 0x0D, CHR 0x20, CHR 0xA0])"

definition js_trim :: "string \<Rightarrow> string" where
  "js_trim s = rev (dropWhile is_ws (rev (dropWhile is_ws s)))"

text \<open>\<open>x || undefined\<close> on a string and on a number.\<close>

definition or_undefined :: "string \<Rightarrow> string option" where
  "or_undefined x = (if x = [] then None else Some x)"

definition num_or_undefined :: "int \<Rightarrow> int option" where
  "num_or_undefined n = (if n = 0 then None else Some n)"

text \<open>A number inside a template literal: the decimal numeral of an integer.\<close>

fun digits :: "nat \<Rightarrow> string" where
  "digits n = (if n < 10 then [''0123456789'' ! n]
               else digits (n div 10) @ [''0123456789'' ! (n mod 10)])"

declare digits.simps [simp del]

definition show_int :: "int \<Rightarrow> string" where
  "show_int i = (if i < 0 then CHR ''-'' # digits (nat (- i)) else digits (nat i))"

definition join_lines :: "string list \<Rightarrow> string" where
  "join_lines ls = (case ls of [] \<Rightarrow> [] | l # rest \<Rightarrow> l @ concat (map (\<lambda>x. CHR 0x0A # x) rest))"

section \<open>cli-runner.ts: quoting and templates\<close>

text \<open>
  \<open>shQuote\<close>: the value between single quotes, each single quote of the value replaced
  by the five characters quote, double quote, quote, double quote, quote.
\<close>

definition quote_escape :: "char \<Rightarrow> string" where
  "quote_escape c = (if c = sq then [sq, dq, sq, dq, sq] else [c])"

definition shQuote :: "string \<Rightarrow> string" where
  "shQuote v = sq # concat (map quote_escape v) @ [sq]"

text \<open>
  \<open>String.prototype.replaceAll\<close> with a string pattern and a string replacement. The
  replacement is expanded at every match by GetSubstitution: \<open>$$\<close> is a dollar sign,
  \<open>$&\<close> the matched text, \<open>$`\<close> the text before the match and \<open>$'\<close> the text after
  it; with a string pattern there are no captures, so every other \<open>$\<close> stands for itself.
\<close>

fun getSubstitution :: "string \<Rightarrow> string \<Rightarrow> string \<Rightarrow> string \<Rightarrow> string" where
  "getSubstitution m b a [] = []"
| "getSubstitution m b a [c] = [c]"
| "getSubstitution m b a (c # d # r) =
     (if c = CHR ''$'' \<and> d = CHR ''$'' then CHR ''$'' # getSubstitution m b a r
      else if c = CHR ''$'' \<and> d = CHR ''&'' then m @ getSubstitution m b a r
      else if c = CHR ''$'' \<and> d = backtick then b @ getSubstitution m b a r
      else if c = CHR ''$'' \<and> d = sq then a @ getSubstitution m b a r
      else c # getSubstitution m b a (d # r))"

text \<open>
  The matches are found from left to right in the original string and do not overlap:
  after a match the scan skips the rest of the matched text. \<open>passed\<close> is the text
  already passed, \<open>skip\<close> the number of characters of a match still to pass.
\<close>

fun replace_scan :: "string \<Rightarrow> string \<Rightarrow> string \<Rightarrow> nat \<Rightarrow> string \<Rightarrow> string" where
  "replace_scan pat repl passed skip [] = []"
| "replace_scan pat repl passed skip (c # cs) =
     (if 0 < skip then replace_scan pat repl (passed @ [c]) (skip - 1) cs
      else if take (length pat) (c # cs) = pat
        then getSubstitution pat passed (drop (length pat) (c # cs)) repl
               @ replace_scan pat repl (passed @ [c]) (length pat - 1) cs
      else c # replace_scan pat repl (passed @ [c]) 0 cs)"

text \<open>An empty pattern matches before every character and at the end.\<close>

fun replace_empty :: "string \<Rightarrow> string \<Rightarrow> string \<Rightarrow> string" where
  "replace_empty repl passed [] = getSubstitution [] passed [] repl"
| "replace_empty repl passed (c # cs) =
     getSubstitution [] passed (c # cs) repl @ c # replace_empty repl (passed @ [c]) cs"

definition replaceAll :: "string \<Rightarrow> string \<Rightarrow> string \<Rightarrow> string" where
  "replaceAll s pat repl =
     (if pat = [] then replace_empty repl [] s else replace_scan pat repl [] 0 s)"

text \<open>
  \<open>renderTemplate\<close>: the entries of \<open>vars\<close> in their order, each placeholder
  \<open>{key}\<close> replaced by the quoted value in the text rendered so far.
\<close>

definition placeholder :: "string \<Rightarrow> string" where
  "placeholder key = CHR ''{'' # key @ [CHR ''}'']"

definition renderTemplate :: "string \<Rightarrow> (string \<times> string) list \<Rightarrow> string" where
  "renderTemplate template vars =
     foldl (\<lambda>rendered (key, v). replaceAll rendered (placeholder key) (shQuote v)) template vars"

subsection \<open>A POSIX-shell-style tokenizer\<close>

text \<open>
  The reference the quoting is measured against, written from the rules of the shell
  command language for words: blanks separate words, single quotes keep every character,
  double quotes keep every character but let a backslash escape a double quote or a
  backslash, and a backslash outside quotes keeps the next character. An open quote or a
  backslash at the end is an error.
\<close>

datatype qmode = Plain | InSingle | InDouble

definition is_blank :: "char \<Rightarrow> bool" where
  "is_blank c = (c = CHR 0x20 \<or> c = CHR 0x09 \<or> c = CHR 0x0A)"

definition word_of :: "string option \<Rightarrow> string" where
  "word_of cur = (case cur of None \<Rightarrow> [] | Some w \<Rightarrow> w)"

fun tokens :: "qmode \<Rightarrow> string option \<Rightarrow> string \<Rightarrow> string list option" where
  "tokens Plain cur [] = Some (case cur of None \<Rightarrow> [] | Some w \<Rightarrow> [w])"
| "tokens InSingle cur [] = None"
| "tokens InDouble cur [] = None"
| "tokens Plain cur (c # cs) =
     (if is_blank c then
        (case cur of None \<Rightarrow> tokens Plain None cs
         | Some w \<Rightarrow> map_option (Cons w) (tokens Plain None cs))
      else if c = sq then tokens InSingle (Some (word_of cur)) cs
      else if c = dq then tokens InDouble (Some (word_of cur)) cs
      else if c = bslash then
        (case cs of [] \<Rightarrow> None | d # ds \<Rightarrow> tokens Plain (Some (word_of cur @ [d])) ds)
      else tokens Plain (Some (word_of cur @ [c])) cs)"
| "tokens InSingle cur (c # cs) =
     (if c = sq then tokens Plain cur cs
      else tokens InSingle (Some (word_of cur @ [c])) cs)"
| "tokens InDouble cur (c # cs) =
     (if c = dq then tokens Plain cur cs
      else if c = bslash then
        (case cs of [] \<Rightarrow> None
         | d # ds \<Rightarrow>
             if d = dq \<or> d = bslash then tokens InDouble (Some (word_of cur @ [d])) ds
             else tokens InDouble (Some (word_of cur @ [c, d])) ds)
      else tokens InDouble (Some (word_of cur @ [c])) cs)"

definition posix_tokenize :: "string \<Rightarrow> string list option" where
  "posix_tokenize s = tokens Plain None s"


section \<open>cli-runner.ts: reading the output of a process\<close>

datatype agent_name = Gemini | Codex

definition agent_text :: "agent_name \<Rightarrow> string" where
  "agent_text a = (case a of Gemini \<Rightarrow> ''gemini'' | Codex \<Rightarrow> ''codex'')"

text \<open>
  A parsed JSON value. The properties of an object are listed in the order of
  \<open>Object.values\<close>, each key once; a number is never inspected and is kept as its numeral.
\<close>

datatype json = JNull | JBool bool | JNum string | JStr string
  | JArr "json list" | JObj "(string \<times> json) list"

text \<open>
  What the runner takes from the JavaScript library: \<open>JSON.parse\<close> (\<open>None\<close> where it
  throws) and the first capture group of the two regular expressions of
  \<open>extractSessionId\<close> (\<open>None\<close> where they do not match).
\<close>

record js_library =
  json_parse :: "string \<Rightarrow> json option"
  match_named_id :: "string \<Rightarrow> string option"
  match_any_id :: "string \<Rightarrow> string option"

fun split_on :: "char \<Rightarrow> string \<Rightarrow> string list" where
  "split_on sep [] = [[]]"
| "split_on sep (c # cs) =
     (if c = sep then [] # split_on sep cs
      else (case split_on sep cs of [] \<Rightarrow> [[c]] | l # ls \<Rightarrow> (c # l) # ls))"

fun first_parse :: "(string \<Rightarrow> json option) \<Rightarrow> string list \<Rightarrow> json" where
  "first_parse parse [] = JNull"
| "first_parse parse (l # ls) = (case parse l of Some j \<Rightarrow> j | None \<Rightarrow> first_parse parse ls)"

definition tryParseJson :: "js_library \<Rightarrow> string \<Rightarrow> json" where
  "tryParseJson lib txt =
     (let trimmed = js_trim txt in
      if trimmed = [] then JNull
      else (case json_parse lib trimmed of
              Some j \<Rightarrow> j
            | None \<Rightarrow>
                first_parse (json_parse lib)
                  (rev (filter (\<lambda>l. l \<noteq> []) (map js_trim (split_on (CHR 0x0A) trimmed))))))"

text \<open>\<open>typeof value === "object" && value\<close>.\<close>

fun is_object :: "json \<Rightarrow> bool" where
  "is_object (JArr xs) = True"
| "is_object (JObj ps) = True"
| "is_object j = False"

text \<open>The first loop of \<open>deepFindString\<close>: the keys in their order.\<close>

fun find_key :: "(string \<times> json) list \<Rightarrow> string list \<Rightarrow> string" where
  "find_key props [] = []"
| "find_key props (k # ks) =
     (case map_of props k of
        Some (JStr v) \<Rightarrow> if js_trim v \<noteq> [] then js_trim v else find_key props ks
      | _ \<Rightarrow> find_key props ks)"

fun deepFindString :: "json \<Rightarrow> string list \<Rightarrow> string"
  and deepFind_values :: "json list \<Rightarrow> string list \<Rightarrow> string"
  and deepFind_props :: "(string \<times> json) list \<Rightarrow> string list \<Rightarrow> string" where
  "deepFindString (JObj props) keys =
     (let direct = find_key props keys in
      if direct \<noteq> [] then direct else deepFind_props props keys)"
| "deepFindString (JArr xs) keys = deepFind_values xs keys"
| "deepFindString JNull keys = []"
| "deepFindString (JBool b) keys = []"
| "deepFindString (JNum n) keys = []"
| "deepFindString (JStr v) keys = []"
| "deepFind_values [] keys = []"
| "deepFind_values (v # vs) keys =
     (if is_object v then
        (let nested = deepFindString v keys in
         if nested \<noteq> [] then nested else deepFind_values vs keys)
      else deepFind_values vs keys)"
| "deepFind_props [] keys = []"
| "deepFind_props ((k, v) # ps) keys =
     (if is_object v then
        (let nested = deepFindString v keys in
         if nested \<noteq> [] then nested else deepFind_props ps keys)
      else deepFind_props ps keys)"

definition session_keys :: "string list" where
  "session_keys = [''session_id'', ''sessionId'', ''thread_id'', ''threadId'',
                   ''conversation_id'', ''conversationId'']"

definition text_keys :: "string list" where
  "text_keys = [''text'', ''output_text'', ''response'', ''content'', ''message'', ''answer'']"

definition extractSessionId :: "js_library \<Rightarrow> string \<Rightarrow> json \<Rightarrow> string" where
  "extractSessionId lib raw parsed =
     (let fromJson = deepFindString parsed session_keys in
      if fromJson \<noteq> [] then fromJson
      else (case match_named_id lib raw of
              Some g \<Rightarrow> g
            | None \<Rightarrow> (case match_any_id lib raw of Some g \<Rightarrow> g | None \<Rightarrow> [])))"

definition extractText :: "string \<Rightarrow> json \<Rightarrow> string" where
  "extractText raw parsed =
     (let fromJson = deepFindString parsed text_keys in
      if fromJson \<noteq> [] then fromJson else js_trim raw)"

subsection \<open>runAgent\<close>

record agent_run_result =
  res_stdout :: string
  res_stderr :: string
  res_text :: string
  res_sessionId :: string
  res_command :: string

text \<open>
  The options of a call that decide its result (the timeout and the line callbacks are
  not modelled).
\<close>

record agent_run_options =
  opt_agent :: agent_name
  opt_prompt :: string
  opt_sessionId :: "string option"
  opt_start :: string
  opt_resume :: string

text \<open>\<open>options.sessionId\<close> as a condition: defined and not empty.\<close>

definition truthy :: "string option \<Rightarrow> bool" where
  "truthy x = (case x of None \<Rightarrow> False | Some v \<Rightarrow> v \<noteq> [])"

definition runAgent_command :: "agent_run_options \<Rightarrow> string" where
  "runAgent_command opts =
     renderTemplate (if truthy (opt_sessionId opts) then opt_resume opts else opt_start opts)
       [(''prompt'', opt_prompt opts),
        (''session_id'', case opt_sessionId opts of None \<Rightarrow> [] | Some v \<Rightarrow> v)]"

text \<open>
  The \<open>close\<close> handler of the child process, when it is the one that settles the call:
  \<open>Inl\<close> the message of the rejection, \<open>Inr\<close> the result. The exit code is \<open>None\<close>
  when the process was ended by a signal.
\<close>

definition runAgent_close ::
  "js_library \<Rightarrow> agent_run_options \<Rightarrow> int option \<Rightarrow> string \<Rightarrow> string \<Rightarrow> string + agent_run_result" where
  "runAgent_close lib opts exitCode out err =
     (let code = (case exitCode of None \<Rightarrow> 1 | Some c \<Rightarrow> c) in
      if code \<noteq> 0 then
        Inl (agent_text (opt_agent opts) @ '' command failed (exit='' @ show_int code @ '')''
             @ (if err \<noteq> [] then '': '' @ err else []))
      else
        (let parsed = tryParseJson lib out;
             extracted = extractSessionId lib out parsed
         in Inr \<lparr>res_stdout = out, res_stderr = err, res_text = extractText out parsed,
                 res_sessionId =
                   (if extracted \<noteq> [] then extracted
                    else if truthy (opt_sessionId opts) then the (opt_sessionId opts)
                    else []),
                 res_command = runAgent_command opts\<rparr>))"

section \<open>The debate engine: data\<close>

datatype agent_status = AgentIdle | Connecting | Ready | AgentError

datatype debate_status =
  Idle | Running | PauseRequested | Paused | Stopping | Stopped | Completed

text \<open>
  The fields that hold a time stamp (\<open>lastConnectedAt\<close>, \<open>ts\<close>, \<open>createdAt\<close>,
  \<open>updatedAt\<close>) are not modelled.
\<close>

record agent_session =
  ses_agent :: agent_name
  ses_sessionId :: string
  ses_status :: agent_status
  ses_lastError :: "string option"

record debate_state =
  d_status :: debate_status
  d_runId :: string
  d_round :: int
  d_topic :: string
  d_maxRounds :: int
  d_reason :: "string option"

record transcript_entry =
  e_runId :: string
  e_round :: int
  e_from :: agent_name
  e_to :: agent_name
  e_prompt :: string
  e_response :: string
  e_rawStdout :: string
  e_rawStderr :: string

text \<open>
  \<open>textLimit\<close> is the third parameter of \<open>createRun\<close>; the engine calls it with two
  arguments, so the field is always undefined.
\<close>

record run_summary =
  r_runId :: string
  r_topic :: string
  r_maxRounds :: int
  r_textLimit :: "int option"
  r_status :: debate_status
  r_round :: int
  r_reason :: "string option"

datatype server_event =
  AgentStatusEv agent_name agent_status "string option" "string option"
| DebateStateEv debate_status "string option" "int option" "string option"
    "string option" "int option"
| TurnLogEv transcript_entry
| ErrorEv string string string

text \<open>
  A call the runner has received. \<open>inv_round\<close> is not among the options passed: it
  records who called, \<open>None\<close> for the probe of \<open>connectAgent\<close> and the round for a
  turn issued by \<open>invokeTurn\<close>.
\<close>

record invocation =
  inv_agent :: agent_name
  inv_prompt :: string
  inv_sessionId :: "string option"
  inv_round :: "int option"

datatype outcome = Resolved agent_run_result | Rejected string

text \<open>
  Where \<open>runLoop\<close> is suspended: at the call of the runner for the turn of Codex (the
  round, the \<open>runId\<close> and the prompt of \<open>invokeTurn\<close>), at the call for the turn of
  Gemini (the same, and the result of Codex), or at the pause (the round and
  \<open>latestGemini\<close>). \<open>NoLoop\<close>: no loop is running.
\<close>

datatype loop_point =
  NoLoop
| AwaitCodex int string string
| AwaitGemini int string string agent_run_result
| AwaitPause int string

record runtime_config =
  defaultMaxRounds :: int
  consensusRegex :: "string \<Rightarrow> bool"

text \<open>
  The engine with its collaborators: the session file (\<open>sessions\<close>), the summary and
  transcript files of the run log store by run id (\<open>summaries\<close>, \<open>logs\<close>), the events
  given to \<open>emit\<close>, the calls the runner has received (\<open>calls\<close>), those among them not
  yet settled (\<open>pending\<close>) and the number of calls of \<open>cancelActive\<close>. The two control
  flags are fields of the engine itself.
\<close>

record engine =
  debate :: debate_state
  agents :: "agent_name \<Rightarrow> agent_session"
  currentRun :: "run_summary option"
  executionPromise :: bool
  pauseRequested :: bool
  stopRequested :: bool
  pauseWait :: bool
  consecutiveEmptyResponses :: nat
  loop :: loop_point
  sessions :: "agent_name \<Rightarrow> string"
  summaries :: "string \<Rightarrow> run_summary option"
  logs :: "string \<Rightarrow> transcript_entry list option"
  emitted :: "server_event list"
  calls :: "invocation list"
  pending :: "invocation list"
  cancels :: nat

datatype op_error =
  EmptyTopic | AlreadyRunning | AgentsNotReady | ConnectWhileRunning
| PauseNotRunning | ResumeNotPaused | NothingToStop

subsection \<open>Texts\<close>

definition CONNECT_PROMPT :: string where
  "CONNECT_PROMPT = ''Session connection check. Reply with OK only.''"

definition opening_prompt :: "string \<Rightarrow> string" where
  "opening_prompt tp =
     join_lines [''Debate topic: '' @ tp,
                 ''You play Codex. Open the debate.'',
                 ''Format: 2 claims, 1 expected risk.'']"

definition codex_prompt :: "string \<Rightarrow> int \<Rightarrow> string \<Rightarrow> string" where
  "codex_prompt tp r latestGemini =
     join_lines [''Debate topic: '' @ tp,
                 ''Debate round: '' @ show_int r,
                 ''Latest opinion of the other side (Gemini):'' @ [CHR 0x0A] @ latestGemini,
                 ''Answer the opinion of the other side, split into rebuttal and acceptance.'']"

definition gemini_prompt :: "string \<Rightarrow> int \<Rightarrow> string \<Rightarrow> string" where
  "gemini_prompt tp r codexText =
     join_lines [''Debate topic: '' @ tp,
                 ''Debate round: '' @ show_int r,
                 ''Latest opinion of the other side (Codex):'' @ [CHR 0x0A] @ codexText,
                 ''Give rebuttal or acceptance of the opinion of the other side, and an improvement.'']"

definition msg_no_runId :: string where
  "msg_no_runId = ''runId is missing.''"

definition msg_empty_twice :: string where
  "msg_empty_twice = ''Stopping the debate after 2 consecutive empty responses.''"

definition msg_no_session :: "agent_name \<Rightarrow> string" where
  "msg_no_session a = agent_text a @ '' session id could not be extracted.''"

definition msg_loop_error :: string where
  "msg_loop_error = ''An error occurred while running the debate.''"

section \<open>The debate engine: operations\<close>

text \<open>The constructor: the persisted session ids, both agents idle, no run.\<close>

definition init ::
  "runtime_config \<Rightarrow> (agent_name \<Rightarrow> string) \<Rightarrow> (string \<Rightarrow> run_summary option)
     \<Rightarrow> (string \<Rightarrow> transcript_entry list option) \<Rightarrow> engine" where
  "init cfg persisted sums lgs =
     \<lparr>debate = \<lparr>d_status = Idle, d_runId = [], d_round = 0, d_topic = [],
                 d_maxRounds = defaultMaxRounds cfg, d_reason = None\<rparr>,
      agents = (\<lambda>a. \<lparr>ses_agent = a, ses_sessionId = persisted a, ses_status = AgentIdle,
                      ses_lastError = None\<rparr>),
      currentRun = None, executionPromise = False, pauseRequested = False,
      stopRequested = False, pauseWait = False, consecutiveEmptyResponses = 0,
      loop = NoLoop, sessions = persisted, summaries = sums, logs = lgs,
      emitted = [], calls = [], pending = [], cancels = 0\<rparr>"

definition emit :: "server_event \<Rightarrow> engine \<Rightarrow> engine" where
  "emit ev s = s\<lparr>emitted := emitted s @ [ev]\<rparr>"

definition setDebateStatus :: "debate_status \<Rightarrow> string option \<Rightarrow> engine \<Rightarrow> engine" where
  "setDebateStatus st rsn s =
     (let d = (debate s)\<lparr>d_status := st, d_reason := rsn\<rparr> in
      emit (DebateStateEv st (or_undefined (d_runId d)) (num_or_undefined (d_round d)) rsn
              (or_undefined (d_topic d)) (num_or_undefined (d_maxRounds d)))
        (s\<lparr>debate := d\<rparr>))"

text \<open>\<open>details\<close> is given as its two optional fields.\<close>

definition setAgentStatus ::
  "agent_name \<Rightarrow> agent_status \<Rightarrow> string option \<Rightarrow> string option \<Rightarrow> engine \<Rightarrow> engine" where
  "setAgentStatus a st sid err s =
     (let old = agents s a;
          new = old\<lparr>ses_status := st, ses_lastError := err,
                    ses_sessionId := (if truthy sid then the sid else ses_sessionId old)\<rparr>
      in emit (AgentStatusEv a st
                 (or_undefined (case sid of Some v \<Rightarrow> v | None \<Rightarrow> ses_sessionId new)) err)
           (s\<lparr>agents := (agents s)(a := new)\<rparr>))"

subsection \<open>The stores\<close>

definition upsert :: "agent_name \<Rightarrow> string \<Rightarrow> engine \<Rightarrow> engine" where
  "upsert a sid s = s\<lparr>sessions := (sessions s)(a := sid)\<rparr>"

text \<open>The run id: a time stamp and a random suffix, both given by the environment.\<close>

definition makeRunId :: "string \<Rightarrow> string \<Rightarrow> string" where
  "makeRunId stamp suffix = ''run_'' @ stamp @ ''_'' @ suffix"

definition createRun ::
  "string \<Rightarrow> int \<Rightarrow> string \<Rightarrow> string \<Rightarrow> engine \<Rightarrow> run_summary \<times> engine" where
  "createRun tp mr stamp suffix s =
     (let summary = \<lparr>r_runId = makeRunId stamp suffix, r_topic = tp, r_maxRounds = mr,
                      r_textLimit = None, r_status = Running, r_round = 0, r_reason = None\<rparr>
      in (summary,
          s\<lparr>summaries := (summaries s)(r_runId summary \<mapsto> summary),
            logs := (logs s)(r_runId summary \<mapsto> [])\<rparr>))"

definition append_entry :: "transcript_entry \<Rightarrow> engine \<Rightarrow> engine" where
  "append_entry entry s =
     s\<lparr>logs := (logs s)(e_runId entry \<mapsto>
          (case logs s (e_runId entry) of None \<Rightarrow> [] | Some es \<Rightarrow> es) @ [entry])\<rparr>"

text \<open>\<open>updateSummary\<close> throws when the run has no summary: \<open>None\<close>.\<close>

definition updateSummary ::
  "string \<Rightarrow> (run_summary \<Rightarrow> run_summary) \<Rightarrow> engine \<Rightarrow> engine option" where
  "updateSummary rid patch s =
     (case summaries s rid of
        None \<Rightarrow> None
      | Some previous \<Rightarrow> Some (s\<lparr>summaries := (summaries s)(rid \<mapsto> patch previous)\<rparr>))"

subsection \<open>connectAgent\<close>

text \<open>
  \<open>connectAgent\<close> up to its call of the runner, where it is suspended: the check of the
  debate status, the session id to resume (\<open>resumeSessionId ?? currentSessionId\<close>) and
  the probe.
\<close>

definition resolvedSessionId :: "engine \<Rightarrow> agent_name \<Rightarrow> string option \<Rightarrow> string" where
  "resolvedSessionId s a resumeSessionId =
     (case resumeSessionId of Some v \<Rightarrow> v | None \<Rightarrow> ses_sessionId (agents s a))"

definition call_runner :: "invocation \<Rightarrow> engine \<Rightarrow> engine" where
  "call_runner i s = s\<lparr>calls := calls s @ [i], pending := pending s @ [i]\<rparr>"

definition connectAgent_begin ::
  "engine \<Rightarrow> agent_name \<Rightarrow> string option \<Rightarrow> op_error + engine" where
  "connectAgent_begin s a resumeSessionId =
     (if d_status (debate s) = Running \<or> d_status (debate s) = PauseRequested
      then Inl ConnectWhileRunning
      else Inr (call_runner
                  \<lparr>inv_agent = a, inv_prompt = CONNECT_PROMPT,
                    inv_sessionId = or_undefined (resolvedSessionId s a resumeSessionId),
                    inv_round = None\<rparr>
                  (setAgentStatus a Connecting None None s)))"

text \<open>
  \<open>connectAgent\<close> from the settlement of the probe on: \<open>Inl\<close> the message of the error
  it rethrows, with the engine as the \<open>catch\<close> block leaves it.
\<close>

definition connectAgent_end ::
  "engine \<Rightarrow> agent_name \<Rightarrow> outcome \<Rightarrow> (string \<times> engine) + engine" where
  "connectAgent_end s a out =
     (case out of
        Rejected msg \<Rightarrow> Inl (msg, setAgentStatus a AgentError None (Some msg) s)
      | Resolved result \<Rightarrow>
          if res_sessionId result = []
          then Inl (msg_no_session a,
                    setAgentStatus a AgentError None (Some (msg_no_session a)) s)
          else Inr (setAgentStatus a Ready (Some (res_sessionId result)) None
                      (upsert a (res_sessionId result) s)))"

subsection \<open>invokeTurn\<close>

text \<open>
  \<open>invokeTurn\<close> up to its call of the runner: \<open>Inl\<close> the message of the error thrown,
  \<open>Inr\<close> the \<open>runId\<close> it has read and the engine with the call issued.
\<close>

definition invokeTurn_begin ::
  "agent_name \<Rightarrow> int \<Rightarrow> string \<Rightarrow> engine \<Rightarrow> string + (string \<times> engine)" where
  "invokeTurn_begin frm r prompt s =
     (let runId = d_runId (debate s) in
      if runId = [] then Inl msg_no_runId
      else Inr (runId,
                call_runner
                  \<lparr>inv_agent = frm, inv_prompt = prompt,
                    inv_sessionId = or_undefined (ses_sessionId (agents s frm)),
                    inv_round = Some r\<rparr> s))"

text \<open>
  \<open>invokeTurn\<close> from the settlement of the call on: \<open>Inl\<close> the message of the error
  thrown and the engine at the throw, \<open>Inr\<close> the result returned.
\<close>

definition invokeTurn_end ::
  "agent_name \<Rightarrow> agent_name \<Rightarrow> int \<Rightarrow> string \<Rightarrow> string \<Rightarrow> outcome \<Rightarrow> engine
     \<Rightarrow> (string \<times> engine) + (agent_run_result \<times> engine)" where
  "invokeTurn_end frm to r prompt runId out s =
     (case out of
        Rejected msg \<Rightarrow> Inl (msg, s)
      | Resolved result \<Rightarrow>
          (let s1 = (if res_sessionId result \<noteq> []
                        \<and> res_sessionId result \<noteq> ses_sessionId (agents s frm)
                     then setAgentStatus frm Ready (Some (res_sessionId result)) None
                            (upsert frm (res_sessionId result) s)
                     else s);
               responseText = js_trim (res_text result);
               s2 = (if responseText = []
                     then s1\<lparr>consecutiveEmptyResponses := consecutiveEmptyResponses s1 + 1\<rparr>
                     else s1\<lparr>consecutiveEmptyResponses := 0\<rparr>)
           in if responseText = [] \<and> 2 \<le> consecutiveEmptyResponses s2
              then Inl (msg_empty_twice, s2)
              else
                (let entry = \<lparr>e_runId = runId, e_round = r, e_from = frm, e_to = to,
                               e_prompt = prompt, e_response = responseText,
                               e_rawStdout = res_stdout result,
                               e_rawStderr = res_stderr result\<rparr>;
                     s3 = append_entry entry s2
                 in case updateSummary runId (\<lambda>p. p\<lparr>r_round := r\<rparr>) s3 of
                      None \<Rightarrow> Inl (''Run summary not found: '' @ runId, s3)
                    | Some s4 \<Rightarrow> Inr (result, emit (TurnLogEv entry) s4))))"

subsection \<open>runLoop\<close>

text \<open>
  The \<open>finally\<close> block; with it the loop has ended. An \<open>updateSummary\<close> that throws
  leaves the summary as it was.
\<close>

definition loop_finally :: "debate_status \<Rightarrow> string \<Rightarrow> engine \<Rightarrow> engine" where
  "loop_finally finalStatus finalReason s =
     (let s1 = s\<lparr>pauseRequested := False, stopRequested := False\<rparr>;
          s2 = setDebateStatus finalStatus (Some finalReason) s1;
          s3 = (case currentRun s2 of
                  None \<Rightarrow> s2
                | Some run \<Rightarrow>
                    (case updateSummary (r_runId run)
                            (\<lambda>p. p\<lparr>r_status := finalStatus, r_round := d_round (debate s2),
                                    r_reason := Some finalReason\<rparr>) s2 of
                       None \<Rightarrow> s2
                     | Some s' \<Rightarrow> s'))
      in s3\<lparr>loop := NoLoop\<rparr>)"

text \<open>The \<open>catch\<close> block and then the \<open>finally\<close> block.\<close>

definition loop_catch :: "string \<Rightarrow> engine \<Rightarrow> engine" where
  "loop_catch msg s =
     loop_finally Stopped msg (emit (ErrorEv ''RUN_LOOP_ERROR'' msg_loop_error msg) s)"

text \<open>
  The end of the \<open>try\<close> block after the \<open>for\<close> statement, reached by a \<open>break\<close> or by
  the end of the rounds, and then the \<open>finally\<close> block.
\<close>

definition after_loop :: "debate_status \<Rightarrow> string \<Rightarrow> engine \<Rightarrow> engine" where
  "after_loop finalStatus finalReason s =
     loop_finally finalStatus
       (if \<not> stopRequested s \<and> d_maxRounds (debate s) \<le> d_round (debate s)
           \<and> finalReason = ''completed''
        then ''max rounds reached'' else finalReason) s"

text \<open>
  One pass of the \<open>for\<close> statement from its condition to the call of the runner for the
  turn of Codex, where the loop is suspended.
\<close>

definition loop_iter :: "int \<Rightarrow> string \<Rightarrow> engine \<Rightarrow> engine" where
  "loop_iter r latestGemini s =
     (if r \<le> d_maxRounds (debate s) then
        (if stopRequested s then after_loop Stopped ''manual stop'' s
         else
           (let s1 = s\<lparr>debate := (debate s)\<lparr>d_round := r\<rparr>\<rparr>;
                s2 = setDebateStatus (d_status (debate s1)) (d_reason (debate s1)) s1;
                codexPrompt = (if r = 1 then opening_prompt (d_topic (debate s2))
                               else codex_prompt (d_topic (debate s2)) r latestGemini)
            in case invokeTurn_begin Codex r codexPrompt s2 of
                 Inl msg \<Rightarrow> loop_catch msg s2
               | Inr (runId, s3) \<Rightarrow> s3\<lparr>loop := AwaitCodex r runId codexPrompt\<rparr>))
      else after_loop Completed ''completed'' s)"

text \<open>\<open>runLoop\<close> from its start to its first suspension.\<close>

definition runLoop :: "engine \<Rightarrow> engine" where
  "runLoop s = (case currentRun s of None \<Rightarrow> s | Some run \<Rightarrow> loop_iter 1 [] s)"

text \<open>The loop from the settlement of the turn of Codex to its next suspension.\<close>

definition codex_done :: "int \<Rightarrow> string \<Rightarrow> string \<Rightarrow> outcome \<Rightarrow> engine \<Rightarrow> engine" where
  "codex_done r runId prompt out s =
     (case invokeTurn_end Codex Gemini r prompt runId out s of
        Inl (msg, s1) \<Rightarrow> loop_catch msg s1
      | Inr (codex, s1) \<Rightarrow>
          if stopRequested s1 then after_loop Stopped ''manual stop'' s1
          else
            (let geminiPrompt = gemini_prompt (d_topic (debate s1)) r (res_text codex)
             in case invokeTurn_begin Gemini r geminiPrompt s1 of
                  Inl msg \<Rightarrow> loop_catch msg s1
                | Inr (runId', s2) \<Rightarrow> s2\<lparr>loop := AwaitGemini r runId' geminiPrompt codex\<rparr>))"

text \<open>The loop after the wait of the pause.\<close>

definition after_pause :: "int \<Rightarrow> string \<Rightarrow> engine \<Rightarrow> engine" where
  "after_pause r latestGemini s =
     (if stopRequested s then after_loop Stopped ''manual stop'' s
      else loop_iter (r + 1) latestGemini s)"

text \<open>
  \<open>waitUntilResumedOrStopped\<close>: it returns at once when a stop is requested or the
  status is not \<open>paused\<close>, and otherwise suspends the loop on the wait handle.
\<close>

definition waitUntilResumedOrStopped :: "int \<Rightarrow> string \<Rightarrow> engine \<Rightarrow> engine" where
  "waitUntilResumedOrStopped r latestGemini s =
     (if stopRequested s then after_pause r latestGemini s
      else if d_status (debate s) \<noteq> Paused then after_pause r latestGemini s
      else s\<lparr>pauseWait := True, loop := AwaitPause r latestGemini\<rparr>)"

text \<open>The loop from the settlement of the turn of Gemini to its next suspension.\<close>

definition gemini_done ::
  "runtime_config \<Rightarrow> int \<Rightarrow> string \<Rightarrow> string \<Rightarrow> agent_run_result \<Rightarrow> outcome \<Rightarrow> engine
     \<Rightarrow> engine" where
  "gemini_done cfg r runId prompt codex out s =
     (case invokeTurn_end Gemini Codex r prompt runId out s of
        Inl (msg, s1) \<Rightarrow> loop_catch msg s1
      | Inr (gemini, s1) \<Rightarrow>
          if stopRequested s1 then after_loop Stopped ''manual stop'' s1
          else if consensusRegex cfg (res_text codex) \<or> consensusRegex cfg (res_text gemini)
            then after_loop Completed ''consensus detected'' s1
          else if pauseRequested s1
            then waitUntilResumedOrStopped r (res_text gemini)
                   (setDebateStatus Paused (Some ''paused at turn boundary'') s1)
          else loop_iter (r + 1) (res_text gemini) s1)"

subsection \<open>startDebate, pauseDebate, resumeDebate, stopDebate\<close>

text \<open>
  \<open>startDebate\<close> up to its own \<open>await\<close>. The loop has run to its first suspension by
  then, and \<open>executionPromise\<close> is assigned after that.
\<close>

definition startDebate ::
  "runtime_config \<Rightarrow> engine \<Rightarrow> string \<Rightarrow> int option \<Rightarrow> string \<Rightarrow> string \<Rightarrow> op_error + engine" where
  "startDebate cfg s tp maxRoundsArg stamp suffix =
     (let trimmedTopic = js_trim tp in
      if trimmedTopic = [] then Inl EmptyTopic
      else if executionPromise s then Inl AlreadyRunning
      else if ses_status (agents s Gemini) \<noteq> Ready \<or> ses_status (agents s Codex) \<noteq> Ready
        then Inl AgentsNotReady
      else
        (let mr = (case maxRoundsArg of Some m \<Rightarrow> m | None \<Rightarrow> defaultMaxRounds cfg);
             s1 = s\<lparr>pauseRequested := False, stopRequested := False,
                     consecutiveEmptyResponses := 0\<rparr>;
             (run, s2) = createRun trimmedTopic mr stamp suffix s1;
             s3 = s2\<lparr>currentRun := Some run,
                      debate := \<lparr>d_status = Running, d_runId = r_runId run, d_round = 0,
                                  d_topic = trimmedTopic, d_maxRounds = mr, d_reason = None\<rparr>\<rparr>;
             s4 = setDebateStatus Running None s3
         in Inr ((runLoop s4)\<lparr>executionPromise := True\<rparr>)))"

definition pauseDebate :: "engine \<Rightarrow> op_error + engine" where
  "pauseDebate s =
     (if d_status (debate s) \<noteq> Running then Inl PauseNotRunning
      else Inr (setDebateStatus PauseRequested (Some ''pause requested'')
                  (s\<lparr>pauseRequested := True\<rparr>)))"

text \<open>Resolving the wait handle clears it; the loop goes on after the operation.\<close>

definition resolve_pauseWait :: "engine \<Rightarrow> engine" where
  "resolve_pauseWait s = (if pauseWait s then s\<lparr>pauseWait := False\<rparr> else s)"

definition resumeDebate :: "engine \<Rightarrow> op_error + engine" where
  "resumeDebate s =
     (if d_status (debate s) \<noteq> Paused then Inl ResumeNotPaused
      else Inr (resolve_pauseWait
                  (setDebateStatus Running (Some ''resumed'') (s\<lparr>pauseRequested := False\<rparr>))))"

definition stopDebate :: "engine \<Rightarrow> op_error + engine" where
  "stopDebate s =
     (if d_status (debate s) \<noteq> Running \<and> d_status (debate s) \<noteq> PauseRequested
         \<and> d_status (debate s) \<noteq> Paused
      then Inl NothingToStop
      else Inr (resolve_pauseWait
                  ((setDebateStatus Stopping (Some ''stop requested'')
                      (s\<lparr>stopRequested := True\<rparr>))\<lparr>cancels := cancels s + 1\<rparr>)))"

section \<open>The engine as a transition system\<close>

text \<open>
  An event is one task of the event loop: a call of an operation, or the settlement of a
  call of the runner. The continuations that follow it (the loop after the wait handle is
  resolved, the callback that clears \<open>executionPromise\<close> when the loop has ended) run
  before the next event.
\<close>

datatype event =
  Connect agent_name "string option"
| ConnectDone agent_name outcome
| Start string "int option" string string
| Pause
| Resume
| Stop
| TurnDone outcome

definition is_probe_of :: "agent_name \<Rightarrow> invocation \<Rightarrow> bool" where
  "is_probe_of a i = (inv_agent i = a \<and> inv_round i = None)"

definition is_turn :: "invocation \<Rightarrow> bool" where
  "is_turn i = (inv_round i \<noteq> None)"

fun remove_first :: "('a \<Rightarrow> bool) \<Rightarrow> 'a list \<Rightarrow> 'a list" where
  "remove_first P [] = []"
| "remove_first P (x # xs) = (if P x then xs else x # remove_first P xs)"

definition wake :: "engine \<Rightarrow> engine" where
  "wake s =
     (case loop s of
        AwaitPause r latestGemini \<Rightarrow> if pauseWait s then s else after_pause r latestGemini s
      | _ \<Rightarrow> s)"

definition settle :: "engine \<Rightarrow> engine" where
  "settle s = (if loop s = NoLoop then s\<lparr>executionPromise := False\<rparr> else s)"

definition or_unchanged :: "engine \<Rightarrow> op_error + engine \<Rightarrow> engine" where
  "or_unchanged s r = (case r of Inl e \<Rightarrow> s | Inr s' \<Rightarrow> s')"

definition perform :: "runtime_config \<Rightarrow> engine \<Rightarrow> event \<Rightarrow> engine" where
  "perform cfg s ev =
     (case ev of
        Connect a resumeSessionId \<Rightarrow> or_unchanged s (connectAgent_begin s a resumeSessionId)
      | ConnectDone a out \<Rightarrow>
          if list_ex (is_probe_of a) (pending s) then
            (case connectAgent_end (s\<lparr>pending := remove_first (is_probe_of a) (pending s)\<rparr>) a out of
               Inl (msg, s') \<Rightarrow> s'
             | Inr s' \<Rightarrow> s')
          else s
      | Start tp maxRoundsArg stamp suffix \<Rightarrow>
          or_unchanged s (startDebate cfg s tp maxRoundsArg stamp suffix)
      | Pause \<Rightarrow> or_unchanged s (pauseDebate s)
      | Resume \<Rightarrow> or_unchanged s (resumeDebate s)
      | Stop \<Rightarrow> or_unchanged s (stopDebate s)
      | TurnDone out \<Rightarrow>
          (case loop s of
             AwaitCodex r runId prompt \<Rightarrow>
               codex_done r runId prompt out (s\<lparr>pending := remove_first is_turn (pending s)\<rparr>)
           | AwaitGemini r runId prompt codex \<Rightarrow>
               gemini_done cfg r runId prompt codex out
                 (s\<lparr>pending := remove_first is_turn (pending s)\<rparr>)
           | _ \<Rightarrow> s))"

definition step :: "runtime_config \<Rightarrow> engine \<Rightarrow> event \<Rightarrow> engine" where
  "step cfg s ev = settle (wake (perform cfg s ev))"

definition exec :: "runtime_config \<Rightarrow> engine \<Rightarrow> event list \<Rightarrow> engine" where
  "exec cfg s evs = foldl (step cfg) s evs"

section \<open>Notions used in the statements\<close>

subsection \<open>Templates\<close>







text \<open>
  The pattern and the text are the same as far as both go: the pattern stands at the
  start of the text, or the start of the pattern is all of the text.
\<close>

definition agree :: "string \<Rightarrow> string \<Rightarrow> bool" where
  "agree pat s = (take (length pat) s = take (length s) pat)"






subsection \<open>Runs of the engine\<close>

text \<open>The turns among the calls the runner has received: round and agent, in order.\<close>

definition turn_calls :: "engine \<Rightarrow> (int \<times> agent_name) list" where
  "turn_calls s = map (\<lambda>i. (the (inv_round i), inv_agent i)) (filter is_turn (calls s))"

text \<open>
  The order of turns: a turn of Gemini in round \<open>r\<close> comes directly after the turn of
  Codex in round \<open>r\<close>; a turn of Codex in a round \<open>r\<close> other than the first comes
  directly after the turn of Gemini in round \<open>r - 1\<close>.
\<close>

definition turn_follows :: "(int \<times> agent_name) option \<Rightarrow> int \<times> agent_name \<Rightarrow> bool" where
  "turn_follows prev t =
     (case snd t of
        Codex \<Rightarrow> fst t = 1 \<or> prev = Some (fst t - 1, Gemini)
      | Gemini \<Rightarrow> prev = Some (fst t, Codex))"

fun turn_order :: "(int \<times> agent_name) option \<Rightarrow> (int \<times> agent_name) list \<Rightarrow> bool" where
  "turn_order prev [] = True"
| "turn_order prev (t # ts) = (turn_follows prev t \<and> turn_order (Some t) ts)"

definition outstanding_turns :: "engine \<Rightarrow> nat" where
  "outstanding_turns s = length (filter is_turn (pending s))"

text \<open>An engine as the constructor leaves it, after the events \<open>evs\<close>.\<close>

definition run ::
  "runtime_config \<Rightarrow> (agent_name \<Rightarrow> string) \<Rightarrow> (string \<Rightarrow> run_summary option)
     \<Rightarrow> (string \<Rightarrow> transcript_entry list option) \<Rightarrow> event list \<Rightarrow> engine" where
  "run cfg persisted sums lgs evs = exec cfg (init cfg persisted sums lgs) evs"

fun is_start :: "event \<Rightarrow> bool" where
  "is_start (Start tp mr stamp suffix) = True"
| "is_start ev = False"

fun is_resume :: "event \<Rightarrow> bool" where
  "is_resume Resume = True"
| "is_resume ev = False"

fun is_turn_done :: "event \<Rightarrow> bool" where
  "is_turn_done (TurnDone out) = True"
| "is_turn_done ev = False"

text \<open>The loop is suspended at a call of the runner: a turn is in flight.\<close>

definition awaits_turn :: "engine \<Rightarrow> bool" where
  "awaits_turn s =
     (case loop s of AwaitCodex r runId p \<Rightarrow> True | AwaitGemini r runId p c \<Rightarrow> True
      | _ \<Rightarrow> False)"

text \<open>A response that is empty or white space only.\<close>

definition blank :: "string \<Rightarrow> bool" where
  "blank t = (js_trim t = [])"

text \<open>The last turn the runner has received.\<close>

definition last_turn :: "engine \<Rightarrow> (int \<times> agent_name) option" where
  "last_turn s = (if turn_calls s = [] then None else Some (last (turn_calls s)))"

text \<open>An event that neither settles a turn nor starts a run.\<close>

definition quiet :: "event \<Rightarrow> bool" where
  "quiet ev = (\<not> is_turn_done ev \<and> \<not> is_start ev)"

text \<open>The call \<open>connectAgent\<close> issues in state \<open>s\<close>.\<close>

definition probe :: "engine \<Rightarrow> agent_name \<Rightarrow> string option \<Rightarrow> invocation" where
  "probe s a resumeSessionId =
     \<lparr>inv_agent = a, inv_prompt = CONNECT_PROMPT,
       inv_sessionId = or_undefined (resolvedSessionId s a resumeSessionId), inv_round = None\<rparr>"

text \<open>
  Options of the runner for that call, with templates as the tests of the repository
  have them.
\<close>

definition probe_options :: "engine \<Rightarrow> agent_name \<Rightarrow> string option \<Rightarrow> agent_run_options" where
  "probe_options s a resumeSessionId =
     \<lparr>opt_agent = a, opt_prompt = CONNECT_PROMPT,
       opt_sessionId = or_undefined (resolvedSessionId s a resumeSessionId),
       opt_start = agent_text a @ '' {prompt}'',
       opt_resume = agent_text a @ '' --resume {session_id} {prompt}''\<rparr>"

subsection \<open>Invariants\<close>

text \<open>The run the loop works on: it has a run id, it is the current run, it has a summary.\<close>

definition run_ok :: "engine \<Rightarrow> bool" where
  "run_ok s =
     (d_runId (debate s) \<noteq> []
      \<and> map_option r_runId (currentRun s) = Some (d_runId (debate s))
      \<and> summaries s (d_runId (debate s)) \<noteq> None)"

text \<open>Status and flags while a turn is in flight.\<close>

definition turn_flags :: "engine \<Rightarrow> bool" where
  "turn_flags s =
     (d_status (debate s) = Running \<and> \<not> pauseRequested s \<and> \<not> stopRequested s
      \<or> d_status (debate s) = PauseRequested \<and> pauseRequested s \<and> \<not> stopRequested s
      \<or> d_status (debate s) = Stopping \<and> stopRequested s)"

definition inv_core :: "engine \<Rightarrow> bool" where
  "inv_core s =
     ((d_status (debate s) = Idle \<or> d_runId (debate s) \<noteq> [])
      \<and> (case loop s of
            NoLoop \<Rightarrow>
              d_status (debate s) = Idle \<or> d_status (debate s) = Stopped
              \<or> d_status (debate s) = Completed
          | AwaitCodex r runId p \<Rightarrow>
              run_ok s \<and> runId = d_runId (debate s) \<and> d_round (debate s) = r \<and> turn_flags s
          | AwaitGemini r runId p c \<Rightarrow>
              run_ok s \<and> runId = d_runId (debate s) \<and> d_round (debate s) = r \<and> turn_flags s
          | AwaitPause r latestGemini \<Rightarrow>
              run_ok s \<and> d_round (debate s) = r \<and> d_status (debate s) = Paused
              \<and> pauseWait s \<and> pauseRequested s \<and> \<not> stopRequested s))"

definition inv :: "engine \<Rightarrow> bool" where
  "inv s = (inv_core s \<and> (executionPromise s \<longleftrightarrow> loop s \<noteq> NoLoop))"

text \<open>
  The turns received are in order, the last of them is the one the loop waits for or has
  just had settled, and a turn is outstanding exactly while the loop waits for one.
\<close>

definition inv_calls :: "engine \<Rightarrow> bool" where
  "inv_calls s =
     (turn_order None (turn_calls s)
      \<and> (case loop s of
            NoLoop \<Rightarrow> outstanding_turns s = 0
          | AwaitCodex r runId p \<Rightarrow> last_turn s = Some (r, Codex) \<and> outstanding_turns s = 1
          | AwaitGemini r runId p c \<Rightarrow> last_turn s = Some (r, Gemini) \<and> outstanding_turns s = 1
          | AwaitPause r latestGemini \<Rightarrow>
              last_turn s = Some (r, Gemini) \<and> outstanding_turns s = 0))"

text \<open>
  After a pause or a stop was requested in round \<open>r\<close>, with \<open>base\<close> the turns
  received before: the round is still \<open>r\<close>, the turns received since are turns of
  round \<open>r\<close>, and a turn in flight has a request pending.
\<close>

definition pause_pending :: "int \<Rightarrow> (int \<times> agent_name) list \<Rightarrow> engine \<Rightarrow> bool" where
  "pause_pending r base t =
     (d_round (debate t) = r
      \<and> (\<exists>new. turn_calls t = base @ new \<and> list_all (\<lambda>x. fst x = r) new)
      \<and> (case loop t of
            NoLoop \<Rightarrow> True
          | AwaitCodex r' runId p \<Rightarrow> r' = r \<and> (pauseRequested t \<or> stopRequested t)
          | AwaitGemini r' runId p c \<Rightarrow> r' = r \<and> (pauseRequested t \<or> stopRequested t)
          | AwaitPause r' latestGemini \<Rightarrow> r' = r \<and> pauseWait t))"

text \<open>
  From \<open>s\<close> to \<open>t\<close> one call of the runner was issued, a turn of agent \<open>a\<close> in
  round \<open>r\<close>; none was issued; the flags are as they were.
\<close>

definition issues :: "engine \<Rightarrow> int \<Rightarrow> agent_name \<Rightarrow> engine \<Rightarrow> bool" where
  "issues s r a t =
     (\<exists>i. inv_round i = Some r \<and> inv_agent i = a
          \<and> calls t = calls s @ [i] \<and> pending t = pending s @ [i])"

definition silent :: "engine \<Rightarrow> engine \<Rightarrow> bool" where
  "silent s t = (calls t = calls s \<and> pending t = pending s)"

definition same_flags :: "engine \<Rightarrow> engine \<Rightarrow> bool" where
  "same_flags s t =
     (pauseRequested t = pauseRequested s \<and> stopRequested t = stopRequested s
      \<and> pauseWait t = pauseWait s)"

subsection \<open>Concrete runs\<close>

text \<open>A configuration, results and events for the concrete cases.\<close>

definition demo_cfg :: runtime_config where
  "demo_cfg = \<lparr>defaultMaxRounds = 2, consensusRegex = (\<lambda>t. t = ''agreed'')\<rparr>"

text \<open>
  The same with a consensus pattern that matches every text, as the empty pattern does.
\<close>

definition demo_any_cfg :: runtime_config where
  "demo_any_cfg = \<lparr>defaultMaxRounds = 2, consensusRegex = (\<lambda>t. True)\<rparr>"

definition demo_result :: "string \<Rightarrow> string \<Rightarrow> agent_run_result" where
  "demo_result t sid =
     \<lparr>res_stdout = t, res_stderr = [], res_text = t, res_sessionId = sid, res_command = ''stub''\<rparr>"

definition demo_connect :: "event list" where
  "demo_connect =
     [Connect Codex None, ConnectDone Codex (Resolved (demo_result ''OK'' ''c-1'')),
      Connect Gemini None, ConnectDone Gemini (Resolved (demo_result ''OK'' ''g-1''))]"

definition demo_ready :: engine where
  "demo_ready = run demo_cfg (\<lambda>a. []) Map.empty Map.empty demo_connect"

definition demo_two_rounds :: "event list" where
  "demo_two_rounds =
     demo_connect @
     [Start ''topic'' None ''s'' ''x'', TurnDone (Resolved (demo_result ''one'' ''c-1'')),
      TurnDone (Resolved (demo_result ''two'' ''g-1'')),
      TurnDone (Resolved (demo_result ''three'' ''c-1''))]"

definition demo_started :: "event list" where
  "demo_started = demo_connect @ [Start ''topic'' (Some 3) ''s'' ''x'']"

definition demo_round :: "event list" where
  "demo_round =
     [TurnDone (Resolved (demo_result ''one'' ''c-1'')),
      TurnDone (Resolved (demo_result ''two'' ''g-1''))]"

definition demo_agreed :: outcome where
  "demo_agreed = Resolved (demo_result ''agreed'' ''g-1'')"

definition demo_one :: outcome where
  "demo_one = Resolved (demo_result ''one'' ''c-1'')"

definition demo_limit_run :: "event list" where
  "demo_limit_run =
     demo_connect @
     [Start ''limit'' (Some 2) ''s'' ''x'',
      TurnDone (Resolved (demo_result (replicate 180 (CHR ''c'')) ''c-1'')),
      TurnDone (Resolved (demo_result (replicate 180 (CHR ''g'')) ''g-1''))]"

definition demo_paused_run :: "event list" where
  "demo_paused_run = demo_started @ Pause # demo_round"

definition demo_lib :: js_library where
  "demo_lib = \<lparr>json_parse = (\<lambda>t. None), match_named_id = (\<lambda>t. None),
               match_any_id = (\<lambda>t. None)\<rparr>"

definition demo_stored :: engine where
  "demo_stored = init demo_cfg (\<lambda>a. ''abc'') Map.empty Map.empty"

definition demo_overlap :: "event list" where
  "demo_overlap =
     [Connect Codex None, Connect Codex None,
      ConnectDone Codex (Resolved (demo_result ''OK'' ''c-1'')),
      Connect Gemini None, ConnectDone Gemini (Resolved (demo_result ''OK'' ''g-1'')),
      Start ''topic'' (Some 3) ''s'' ''x'']"

section \<open>Quoting and templates\<close>






lemma agree_Nil [simp]: "agree [] s"
  by (simp add: agree_def)

lemma agree_Cons [simp]: "agree (p # ps) (c # s) = (p = c \<and> agree ps s)"
  by (auto simp: agree_def)

lemma agree_empty [simp]: "agree pat []"
  by (simp add: agree_def)



















text \<open>
  Where the quoted value holds a replacement pattern, \<open>replaceAll\<close> expands it and the
  value is not read back: a value that ends in a dollar sign takes the text after the
  placeholder in the place of the dollar sign and the closing quote.
\<close>

lemma renderTemplate_dollar:
  "renderTemplate ''run {prompt} -x'' [(''prompt'', ''a$''), (''session_id'', [])]
       = ''run '' @ [sq] @ ''a -x -x''
   \<and> posix_tokenize
        (renderTemplate ''run {prompt} -x'' [(''prompt'', ''a$''), (''session_id'', [])])
       = None"
  by (simp add: renderTemplate_def replaceAll_def placeholder_def shQuote_def
      quote_escape_def posix_tokenize_def is_blank_def word_of_def)

section \<open>The engine: what the operations change\<close>

lemmas engine_defs =
  run_def exec_def step_def perform_def settle_def wake_def or_unchanged_def init_def
  connectAgent_begin_def connectAgent_end_def resolvedSessionId_def call_runner_def
  setAgentStatus_def setDebateStatus_def emit_def upsert_def truthy_def or_undefined_def
  num_or_undefined_def is_probe_of_def is_turn_def
  startDebate_def createRun_def makeRunId_def runLoop_def loop_iter_def invokeTurn_begin_def
  invokeTurn_end_def append_entry_def updateSummary_def codex_done_def gemini_done_def
  after_loop_def loop_finally_def loop_catch_def after_pause_def waitUntilResumedOrStopped_def
  pauseDebate_def resumeDebate_def stopDebate_def resolve_pauseWait_def
  js_trim_def is_ws_def Let_def

lemmas demo_defs =
  demo_cfg_def demo_result_def demo_connect_def demo_started_def demo_round_def
  demo_agreed_def demo_one_def

lemmas engine_unfold =
  run_def exec_def step_def perform_def settle_def wake_def or_unchanged_def init_def
  connectAgent_begin_def connectAgent_end_def resolvedSessionId_def call_runner_def
  setAgentStatus_def setDebateStatus_def emit_def upsert_def truthy_def or_undefined_def
  num_or_undefined_def is_probe_of_def is_turn_def
  startDebate_def createRun_def makeRunId_def runLoop_def loop_iter_def invokeTurn_begin_def
  invokeTurn_end_def append_entry_def updateSummary_def codex_done_def gemini_done_def
  after_loop_def loop_finally_def loop_catch_def after_pause_def waitUntilResumedOrStopped_def
  pauseDebate_def resumeDebate_def stopDebate_def resolve_pauseWait_def Let_def

text \<open>Fields after the primitives.\<close>

lemma emit_fields [simp]:
  "debate (emit ev s) = debate s" "agents (emit ev s) = agents s"
  "currentRun (emit ev s) = currentRun s" "executionPromise (emit ev s) = executionPromise s"
  "pauseRequested (emit ev s) = pauseRequested s" "stopRequested (emit ev s) = stopRequested s"
  "pauseWait (emit ev s) = pauseWait s"
  "consecutiveEmptyResponses (emit ev s) = consecutiveEmptyResponses s"
  "loop (emit ev s) = loop s" "sessions (emit ev s) = sessions s"
  "summaries (emit ev s) = summaries s" "logs (emit ev s) = logs s"
  "emitted (emit ev s) = emitted s @ [ev]" "calls (emit ev s) = calls s"
  "pending (emit ev s) = pending s" "cancels (emit ev s) = cancels s"
  by (simp_all add: emit_def)

lemma setDebateStatus_fields [simp]:
  "d_status (debate (setDebateStatus st rsn s)) = st"
  "d_reason (debate (setDebateStatus st rsn s)) = rsn"
  "d_runId (debate (setDebateStatus st rsn s)) = d_runId (debate s)"
  "d_round (debate (setDebateStatus st rsn s)) = d_round (debate s)"
  "d_topic (debate (setDebateStatus st rsn s)) = d_topic (debate s)"
  "d_maxRounds (debate (setDebateStatus st rsn s)) = d_maxRounds (debate s)"
  "agents (setDebateStatus st rsn s) = agents s"
  "currentRun (setDebateStatus st rsn s) = currentRun s"
  "executionPromise (setDebateStatus st rsn s) = executionPromise s"
  "pauseRequested (setDebateStatus st rsn s) = pauseRequested s"
  "stopRequested (setDebateStatus st rsn s) = stopRequested s"
  "pauseWait (setDebateStatus st rsn s) = pauseWait s"
  "consecutiveEmptyResponses (setDebateStatus st rsn s) = consecutiveEmptyResponses s"
  "loop (setDebateStatus st rsn s) = loop s" "sessions (setDebateStatus st rsn s) = sessions s"
  "summaries (setDebateStatus st rsn s) = summaries s" "logs (setDebateStatus st rsn s) = logs s"
  "calls (setDebateStatus st rsn s) = calls s"
  "pending (setDebateStatus st rsn s) = pending s" "cancels (setDebateStatus st rsn s) = cancels s"
  by (simp_all add: setDebateStatus_def Let_def)

lemma setDebateStatus_emitted:
  "emitted (setDebateStatus st rsn s) =
     emitted s @ [DebateStateEv st (or_undefined (d_runId (debate s)))
                    (num_or_undefined (d_round (debate s))) rsn
                    (or_undefined (d_topic (debate s))) (num_or_undefined (d_maxRounds (debate s)))]"
  by (simp add: setDebateStatus_def Let_def)

lemma setAgentStatus_fields [simp]:
  "debate (setAgentStatus a st sid err s) = debate s"
  "currentRun (setAgentStatus a st sid err s) = currentRun s"
  "executionPromise (setAgentStatus a st sid err s) = executionPromise s"
  "pauseRequested (setAgentStatus a st sid err s) = pauseRequested s"
  "stopRequested (setAgentStatus a st sid err s) = stopRequested s"
  "pauseWait (setAgentStatus a st sid err s) = pauseWait s"
  "consecutiveEmptyResponses (setAgentStatus a st sid err s) = consecutiveEmptyResponses s"
  "loop (setAgentStatus a st sid err s) = loop s"
  "sessions (setAgentStatus a st sid err s) = sessions s"
  "summaries (setAgentStatus a st sid err s) = summaries s"
  "logs (setAgentStatus a st sid err s) = logs s"
  "calls (setAgentStatus a st sid err s) = calls s"
  "pending (setAgentStatus a st sid err s) = pending s"
  "cancels (setAgentStatus a st sid err s) = cancels s"
  by (simp_all add: setAgentStatus_def Let_def)

lemma setAgentStatus_agent:
  "ses_status (agents (setAgentStatus a st sid err s) a) = st"
  "ses_lastError (agents (setAgentStatus a st sid err s) a) = err"
  "ses_sessionId (agents (setAgentStatus a st sid err s) a)
     = (if truthy sid then the sid else ses_sessionId (agents s a))"
  "b \<noteq> a \<Longrightarrow> agents (setAgentStatus a st sid err s) b = agents s b"
  by (simp_all add: setAgentStatus_def Let_def)

lemma upsert_fields [simp]:
  "debate (upsert a sid s) = debate s" "agents (upsert a sid s) = agents s"
  "currentRun (upsert a sid s) = currentRun s"
  "executionPromise (upsert a sid s) = executionPromise s"
  "pauseRequested (upsert a sid s) = pauseRequested s"
  "stopRequested (upsert a sid s) = stopRequested s"
  "pauseWait (upsert a sid s) = pauseWait s"
  "consecutiveEmptyResponses (upsert a sid s) = consecutiveEmptyResponses s"
  "loop (upsert a sid s) = loop s"
  "summaries (upsert a sid s) = summaries s" "logs (upsert a sid s) = logs s"
  "emitted (upsert a sid s) = emitted s" "calls (upsert a sid s) = calls s"
  "pending (upsert a sid s) = pending s" "cancels (upsert a sid s) = cancels s"
  by (simp_all add: upsert_def)

lemma call_runner_fields [simp]:
  "debate (call_runner i s) = debate s" "agents (call_runner i s) = agents s"
  "currentRun (call_runner i s) = currentRun s"
  "executionPromise (call_runner i s) = executionPromise s"
  "pauseRequested (call_runner i s) = pauseRequested s"
  "stopRequested (call_runner i s) = stopRequested s"
  "pauseWait (call_runner i s) = pauseWait s"
  "consecutiveEmptyResponses (call_runner i s) = consecutiveEmptyResponses s"
  "loop (call_runner i s) = loop s" "sessions (call_runner i s) = sessions s"
  "summaries (call_runner i s) = summaries s" "logs (call_runner i s) = logs s"
  "emitted (call_runner i s) = emitted s" "calls (call_runner i s) = calls s @ [i]"
  "pending (call_runner i s) = pending s @ [i]" "cancels (call_runner i s) = cancels s"
  by (simp_all add: call_runner_def)

lemma append_entry_fields [simp]:
  "debate (append_entry e s) = debate s" "agents (append_entry e s) = agents s"
  "currentRun (append_entry e s) = currentRun s"
  "executionPromise (append_entry e s) = executionPromise s"
  "pauseRequested (append_entry e s) = pauseRequested s"
  "stopRequested (append_entry e s) = stopRequested s"
  "pauseWait (append_entry e s) = pauseWait s"
  "consecutiveEmptyResponses (append_entry e s) = consecutiveEmptyResponses s"
  "loop (append_entry e s) = loop s" "sessions (append_entry e s) = sessions s"
  "summaries (append_entry e s) = summaries s"
  "emitted (append_entry e s) = emitted s" "calls (append_entry e s) = calls s"
  "pending (append_entry e s) = pending s" "cancels (append_entry e s) = cancels s"
  by (simp_all add: append_entry_def)

lemma updateSummary_fields:
  assumes "updateSummary rid f s = Some s'"
  shows "debate s' = debate s" "agents s' = agents s" "currentRun s' = currentRun s"
    "executionPromise s' = executionPromise s" "pauseRequested s' = pauseRequested s"
    "stopRequested s' = stopRequested s" "pauseWait s' = pauseWait s"
    "consecutiveEmptyResponses s' = consecutiveEmptyResponses s" "loop s' = loop s"
    "sessions s' = sessions s" "logs s' = logs s" "emitted s' = emitted s"
    "calls s' = calls s" "pending s' = pending s" "cancels s' = cancels s"
    "summaries s' = (summaries s)(rid \<mapsto> f (the (summaries s rid)))"
    "summaries s rid \<noteq> None"
  using assms by (auto simp: updateSummary_def split: option.splits)

lemma updateSummary_None: "(updateSummary rid f s = None) = (summaries s rid = None)"
  by (simp add: updateSummary_def split: option.splits)

text \<open>The end of the loop.\<close>

lemma loop_finally_fields [simp]:
  "loop (loop_finally st rsn s) = NoLoop"
  "d_status (debate (loop_finally st rsn s)) = st"
  "d_reason (debate (loop_finally st rsn s)) = Some rsn"
  "d_runId (debate (loop_finally st rsn s)) = d_runId (debate s)"
  "d_round (debate (loop_finally st rsn s)) = d_round (debate s)"
  "d_topic (debate (loop_finally st rsn s)) = d_topic (debate s)"
  "d_maxRounds (debate (loop_finally st rsn s)) = d_maxRounds (debate s)"
  "agents (loop_finally st rsn s) = agents s"
  "currentRun (loop_finally st rsn s) = currentRun s"
  "executionPromise (loop_finally st rsn s) = executionPromise s"
  "pauseRequested (loop_finally st rsn s) = False"
  "stopRequested (loop_finally st rsn s) = False"
  "pauseWait (loop_finally st rsn s) = pauseWait s"
  "consecutiveEmptyResponses (loop_finally st rsn s) = consecutiveEmptyResponses s"
  "sessions (loop_finally st rsn s) = sessions s" "logs (loop_finally st rsn s) = logs s"
  "calls (loop_finally st rsn s) = calls s" "pending (loop_finally st rsn s) = pending s"
  "cancels (loop_finally st rsn s) = cancels s"
  by (auto simp: loop_finally_def Let_def updateSummary_def split: option.splits)

lemma after_loop_fields [simp]:
  "loop (after_loop st rsn s) = NoLoop"
  "d_status (debate (after_loop st rsn s)) = st"
  "d_runId (debate (after_loop st rsn s)) = d_runId (debate s)"
  "d_round (debate (after_loop st rsn s)) = d_round (debate s)"
  "d_topic (debate (after_loop st rsn s)) = d_topic (debate s)"
  "d_maxRounds (debate (after_loop st rsn s)) = d_maxRounds (debate s)"
  "agents (after_loop st rsn s) = agents s"
  "currentRun (after_loop st rsn s) = currentRun s"
  "executionPromise (after_loop st rsn s) = executionPromise s"
  "pauseRequested (after_loop st rsn s) = False"
  "stopRequested (after_loop st rsn s) = False"
  "pauseWait (after_loop st rsn s) = pauseWait s"
  "consecutiveEmptyResponses (after_loop st rsn s) = consecutiveEmptyResponses s"
  "sessions (after_loop st rsn s) = sessions s" "logs (after_loop st rsn s) = logs s"
  "calls (after_loop st rsn s) = calls s" "pending (after_loop st rsn s) = pending s"
  "cancels (after_loop st rsn s) = cancels s"
  by (simp_all add: after_loop_def)

lemma loop_catch_fields [simp]:
  "loop (loop_catch msg s) = NoLoop"
  "d_status (debate (loop_catch msg s)) = Stopped"
  "d_reason (debate (loop_catch msg s)) = Some msg"
  "d_runId (debate (loop_catch msg s)) = d_runId (debate s)"
  "d_round (debate (loop_catch msg s)) = d_round (debate s)"
  "d_topic (debate (loop_catch msg s)) = d_topic (debate s)"
  "d_maxRounds (debate (loop_catch msg s)) = d_maxRounds (debate s)"
  "agents (loop_catch msg s) = agents s"
  "currentRun (loop_catch msg s) = currentRun s"
  "executionPromise (loop_catch msg s) = executionPromise s"
  "pauseRequested (loop_catch msg s) = False"
  "stopRequested (loop_catch msg s) = False"
  "pauseWait (loop_catch msg s) = pauseWait s"
  "consecutiveEmptyResponses (loop_catch msg s) = consecutiveEmptyResponses s"
  "sessions (loop_catch msg s) = sessions s" "logs (loop_catch msg s) = logs s"
  "calls (loop_catch msg s) = calls s" "pending (loop_catch msg s) = pending s"
  "cancels (loop_catch msg s) = cancels s"
  by (simp_all add: loop_catch_def)

text \<open>What a turn leaves as it was.\<close>

lemma invokeTurn_end_Inl:
  assumes "invokeTurn_end frm to r p rid out s = Inl (msg, s1)"
  shows "debate s1 = debate s \<and> currentRun s1 = currentRun s
    \<and> executionPromise s1 = executionPromise s \<and> pauseRequested s1 = pauseRequested s
    \<and> stopRequested s1 = stopRequested s \<and> pauseWait s1 = pauseWait s \<and> loop s1 = loop s
    \<and> calls s1 = calls s \<and> pending s1 = pending s \<and> cancels s1 = cancels s
    \<and> summaries s1 = summaries s"
  using assms
  by (auto simp: invokeTurn_end_def Let_def updateSummary_def
      split: outcome.splits if_splits option.splits)

lemma invokeTurn_end_Inr:
  assumes "invokeTurn_end frm to r p rid out s = Inr (x, s1)"
  shows "out = Resolved x \<and> debate s1 = debate s \<and> currentRun s1 = currentRun s
    \<and> executionPromise s1 = executionPromise s \<and> pauseRequested s1 = pauseRequested s
    \<and> stopRequested s1 = stopRequested s \<and> pauseWait s1 = pauseWait s \<and> loop s1 = loop s
    \<and> calls s1 = calls s \<and> pending s1 = pending s \<and> cancels s1 = cancels s
    \<and> summaries s rid \<noteq> None
    \<and> summaries s1 = (summaries s)(rid \<mapsto> (the (summaries s rid))\<lparr>r_round := r\<rparr>)"
  using assms
  by (auto simp: invokeTurn_end_def Let_def updateSummary_def
      split: outcome.splits if_splits option.splits)

lemma invokeTurn_begin_Inr:
  "invokeTurn_begin frm r p s = Inr (rid, s1) \<longleftrightarrow>
     d_runId (debate s) \<noteq> [] \<and> rid = d_runId (debate s)
     \<and> s1 = call_runner \<lparr>inv_agent = frm, inv_prompt = p,
               inv_sessionId = or_undefined (ses_sessionId (agents s frm)),
               inv_round = Some r\<rparr> s"
  by (auto simp: invokeTurn_begin_def Let_def)

lemma invokeTurn_begin_Inl:
  "invokeTurn_begin frm r p s = Inl msg \<longleftrightarrow> d_runId (debate s) = [] \<and> msg = msg_no_runId"
  by (auto simp: invokeTurn_begin_def Let_def)

text \<open>The invariant along the loop.\<close>

lemma inv_core_pending [simp]: "inv_core (s\<lparr>pending := x\<rparr>) = inv_core s"
  by (simp add: inv_core_def run_ok_def turn_flags_def split: loop_point.split)

lemma inv_core_ended:
  "loop t = NoLoop \<Longrightarrow> d_runId (debate t) \<noteq> [] \<Longrightarrow>
   d_status (debate t) = Stopped \<or> d_status (debate t) = Completed \<Longrightarrow> inv_core t"
  by (auto simp: inv_core_def)

lemma loop_iter_inv:
  assumes "run_ok s" "stopRequested s \<or> turn_flags s"
  shows "inv_core (loop_iter r l s)"
  using assms
  by (auto simp: loop_iter_def Let_def invokeTurn_begin_def inv_core_def run_ok_def
      turn_flags_def split: option.splits)

lemma after_pause_inv:
  assumes "run_ok s" "stopRequested s \<or> turn_flags s"
  shows "inv_core (after_pause r l s)"
  using assms loop_iter_inv [OF assms]
  by (auto simp: after_pause_def intro!: inv_core_ended simp: run_ok_def)

lemma codex_done_inv:
  assumes "run_ok s" "turn_flags s" "d_round (debate s) = r"
  shows "inv_core (codex_done r rid p out s)"
  using assms
  by (auto simp: codex_done_def Let_def invokeTurn_begin_def inv_core_def run_ok_def
      turn_flags_def split: sum.splits prod.splits option.splits
      dest!: invokeTurn_end_Inl invokeTurn_end_Inr)

lemma gemini_done_inv:
  assumes "run_ok s" "turn_flags s" "d_round (debate s) = r"
  shows "inv_core (gemini_done cfg r rid p c out s)"
proof (cases "invokeTurn_end Gemini Codex r p rid out s")
  case (Inl e)
  obtain msg s1 where e: "e = (msg, s1)" by (cases e)
  from invokeTurn_end_Inl [OF Inl [unfolded e]] assms show ?thesis
    using Inl e by (auto simp: gemini_done_def run_ok_def intro!: inv_core_ended)
next
  case (Inr e)
  obtain g s1 where e: "e = (g, s1)" by (cases e)
  note f = invokeTurn_end_Inr [OF Inr [unfolded e]]
  have ok: "run_ok s1" "turn_flags s1" "d_round (debate s1) = r"
    using f assms by (auto simp: run_ok_def turn_flags_def)
  have paused: "pauseRequested s1 \<Longrightarrow> \<not> stopRequested s1 \<Longrightarrow>
      inv_core (waitUntilResumedOrStopped r (res_text g)
                 (setDebateStatus Paused (Some ''paused at turn boundary'') s1))"
    using ok by (auto simp: waitUntilResumedOrStopped_def inv_core_def run_ok_def)
  have next_round: "\<not> stopRequested s1 \<Longrightarrow> inv_core (loop_iter (r + 1) (res_text g) s1)"
    using loop_iter_inv [OF ok(1)] ok(2) by simp
  show ?thesis
    using Inr e ok paused next_round
    by (auto simp: gemini_done_def run_ok_def intro!: inv_core_ended)
qed

lemma inv_core_frame:
  assumes "inv_core s" "debate t = debate s" "loop t = loop s" "currentRun t = currentRun s"
    "summaries t = summaries s" "pauseWait t = pauseWait s"
    "pauseRequested t = pauseRequested s" "stopRequested t = stopRequested s"
  shows "inv_core t"
  using assms by (simp add: inv_core_def run_ok_def turn_flags_def split: loop_point.splits)

lemma wake_id: "inv_core t \<Longrightarrow> wake t = t"
  by (auto simp: wake_def inv_core_def split: loop_point.splits)

lemma settle_inv:
  "inv_core t \<Longrightarrow> (loop t \<noteq> NoLoop \<longrightarrow> executionPromise t) \<Longrightarrow> inv (settle t)"
  by (auto simp: inv_def settle_def inv_core_def run_ok_def turn_flags_def
      split: loop_point.splits)

lemma step_from_core:
  "inv_core (perform cfg s ev) \<Longrightarrow>
   (loop (perform cfg s ev) \<noteq> NoLoop \<longrightarrow> executionPromise (perform cfg s ev)) \<Longrightarrow>
   inv (step cfg s ev)"
  by (simp add: step_def wake_id settle_inv)

lemma step_Connect_inv: "inv s \<Longrightarrow> inv (step cfg s (Connect a rs))"
proof (rule step_from_core)
  assume i: "inv s"
  show "inv_core (perform cfg s (Connect a rs))"
    using i by (auto simp: perform_def or_unchanged_def connectAgent_begin_def inv_def
        intro: inv_core_frame)
  show "loop (perform cfg s (Connect a rs)) \<noteq> NoLoop \<longrightarrow> executionPromise (perform cfg s (Connect a rs))"
    using i by (auto simp: perform_def or_unchanged_def connectAgent_begin_def inv_def)
qed

lemma step_ConnectDone_inv: "inv s \<Longrightarrow> inv (step cfg s (ConnectDone a out))"
proof (rule step_from_core)
  assume i: "inv s"
  show "inv_core (perform cfg s (ConnectDone a out))"
    using i by (auto simp: perform_def connectAgent_end_def inv_def
        split: outcome.splits intro: inv_core_frame)
  show "loop (perform cfg s (ConnectDone a out)) \<noteq> NoLoop \<longrightarrow> executionPromise (perform cfg s (ConnectDone a out))"
    using i by (auto simp: perform_def connectAgent_end_def inv_def split: outcome.splits)
qed

lemma step_Pause_inv: "inv s \<Longrightarrow> inv (step cfg s Pause)"
proof (rule step_from_core)
  assume i: "inv s"
  show "inv_core (perform cfg s Pause)"
    using i by (auto simp: perform_def or_unchanged_def pauseDebate_def inv_def inv_core_def
        run_ok_def turn_flags_def split: loop_point.splits)
  show "loop (perform cfg s Pause) \<noteq> NoLoop \<longrightarrow> executionPromise (perform cfg s Pause)"
    using i by (auto simp: perform_def or_unchanged_def pauseDebate_def inv_def)
qed

lemma step_TurnDone_inv: "inv s \<Longrightarrow> inv (step cfg s (TurnDone out))"
proof (rule step_from_core)
  assume i: "inv s"
  show "inv_core (perform cfg s (TurnDone out))"
  proof (cases "loop s")
    case NoLoop
    then show ?thesis using i by (simp add: perform_def inv_def)
  next
    case (AwaitCodex r rid p)
    then show ?thesis using i codex_done_inv [of "s\<lparr>pending := remove_first is_turn (pending s)\<rparr>" r rid p out]
      by (simp add: perform_def inv_def inv_core_def run_ok_def turn_flags_def)
  next
    case (AwaitGemini r rid p c)
    then show ?thesis using i gemini_done_inv [of "s\<lparr>pending := remove_first is_turn (pending s)\<rparr>" r cfg rid p c out]
      by (simp add: perform_def inv_def inv_core_def run_ok_def turn_flags_def)
  next
    case (AwaitPause r l)
    then show ?thesis using i by (simp add: perform_def inv_def)
  qed
  show "loop (perform cfg s (TurnDone out)) \<noteq> NoLoop \<longrightarrow> executionPromise (perform cfg s (TurnDone out))"
    using i
    by (auto simp: perform_def inv_def codex_done_def gemini_done_def Let_def
        waitUntilResumedOrStopped_def after_pause_def loop_iter_def invokeTurn_begin_def
        split: loop_point.splits sum.splits prod.splits if_splits
        dest!: invokeTurn_end_Inl invokeTurn_end_Inr)
qed

lemma after_pause_promise:
  "executionPromise (after_pause r l s) = executionPromise s"
  by (auto simp: after_pause_def loop_iter_def Let_def invokeTurn_begin_def)

lemma paused_loop:
  "inv_core s \<Longrightarrow> d_status (debate s) = Paused \<Longrightarrow> \<exists>r l. loop s = AwaitPause r l"
  by (auto simp: inv_core_def turn_flags_def split: loop_point.splits)

lemma step_Resume_inv: "inv s \<Longrightarrow> inv (step cfg s Resume)"
proof (cases "d_status (debate s) = Paused")
  case False
  assume "inv s"
  then show ?thesis using False
    by (intro step_from_core) (auto simp: perform_def or_unchanged_def resumeDebate_def inv_def)
next
  case True
  assume i: "inv s"
  then have "inv_core s" by (simp add: inv_def)
  from paused_loop [OF this True] obtain r l where l: "loop s = AwaitPause r l" by blast
  define t where "t = perform cfg s Resume"
  have t: "t = (setDebateStatus Running (Some ''resumed'') (s\<lparr>pauseRequested := False\<rparr>))\<lparr>pauseWait := False\<rparr>"
    using i l True by (simp add: t_def perform_def or_unchanged_def resumeDebate_def
        resolve_pauseWait_def inv_def inv_core_def)
  have ok: "run_ok t" "turn_flags t" "loop t = AwaitPause r l" "\<not> pauseWait t" "executionPromise t"
    using i l by (auto simp: t inv_def inv_core_def run_ok_def turn_flags_def)
  have w: "wake t = after_pause r l t" using ok by (simp add: wake_def)
  have "inv_core (wake t)" using after_pause_inv [OF ok(1)] ok(2) w by simp
  moreover have "executionPromise (wake t)" using w ok by (simp add: after_pause_promise)
  ultimately show ?thesis unfolding step_def t_def [symmetric] by (simp add: settle_inv)
qed

lemma step_Stop_inv: "inv s \<Longrightarrow> inv (step cfg s Stop)"
proof (cases "d_status (debate s) = Paused")
  case False
  assume "inv s"
  then show ?thesis using False
    by (intro step_from_core)
      (auto simp: perform_def or_unchanged_def stopDebate_def resolve_pauseWait_def inv_def
        inv_core_def run_ok_def turn_flags_def split: loop_point.splits)
next
  case True
  assume i: "inv s"
  then have "inv_core s" by (simp add: inv_def)
  from paused_loop [OF this True] obtain r l where l: "loop s = AwaitPause r l" by blast
  define t where "t = perform cfg s Stop"
  have t: "t = ((setDebateStatus Stopping (Some ''stop requested'') (s\<lparr>stopRequested := True\<rparr>))
                  \<lparr>cancels := cancels s + 1\<rparr>)\<lparr>pauseWait := False\<rparr>"
    using i l True by (simp add: t_def perform_def or_unchanged_def stopDebate_def
        resolve_pauseWait_def inv_def inv_core_def)
  have ok: "run_ok t" "stopRequested t" "loop t = AwaitPause r l" "\<not> pauseWait t" "executionPromise t"
    using i l by (auto simp: t inv_def inv_core_def run_ok_def)
  have w: "wake t = after_pause r l t" using ok by (simp add: wake_def)
  have "inv_core (wake t)" using after_pause_inv [OF ok(1)] ok(2) w by simp
  moreover have "executionPromise (wake t)" using w ok by (simp add: after_pause_promise)
  ultimately show ?thesis unfolding step_def t_def [symmetric] by (simp add: settle_inv)
qed

lemma loop_iter_promise: "executionPromise (loop_iter r l s) = executionPromise s"
  by (auto simp: loop_iter_def Let_def invokeTurn_begin_def)

lemma makeRunId_nonempty: "makeRunId stamp suffix \<noteq> []"
  by (simp add: makeRunId_def)

lemma startDebate_Inr:
  assumes "startDebate cfg s tp mra stamp suffix = Inr t"
  shows "\<exists>s4. t = (loop_iter 1 [] s4)\<lparr>executionPromise := True\<rparr> \<and> run_ok s4 \<and> turn_flags s4
           \<and> d_status (debate s4) = Running \<and> d_round (debate s4) = 0
           \<and> d_runId (debate s4) = makeRunId stamp suffix
           \<and> d_topic (debate s4) = js_trim tp
           \<and> d_maxRounds (debate s4) = (case mra of Some m \<Rightarrow> m | None \<Rightarrow> defaultMaxRounds cfg)
           \<and> consecutiveEmptyResponses s4 = 0
           \<and> calls s4 = calls s \<and> pending s4 = pending s \<and> agents s4 = agents s
           \<and> \<not> executionPromise s \<and> js_trim tp \<noteq> []
           \<and> ses_status (agents s Gemini) = Ready \<and> ses_status (agents s Codex) = Ready"
  using assms
  by (auto simp: startDebate_def Let_def createRun_def runLoop_def run_ok_def turn_flags_def
      makeRunId_nonempty split: if_splits)

lemma inv_core_promise [simp]: "inv_core (s\<lparr>executionPromise := x\<rparr>) = inv_core s"
  by (simp add: inv_core_def run_ok_def turn_flags_def split: loop_point.split)

lemma step_Start_inv: "inv s \<Longrightarrow> inv (step cfg s (Start tp mra stamp suffix))"
proof (cases "startDebate cfg s tp mra stamp suffix")
  case (Inl e)
  assume "inv s"
  then show ?thesis using Inl
    by (intro step_from_core) (auto simp: perform_def or_unchanged_def inv_def)
next
  case (Inr t)
  assume i: "inv s"
  from startDebate_Inr [OF Inr] obtain s4 where
    t: "t = (loop_iter 1 [] s4)\<lparr>executionPromise := True\<rparr>" and ok: "run_ok s4" "turn_flags s4"
    by blast
  have "inv_core t" using loop_iter_inv [OF ok(1)] ok(2) t by simp
  moreover have "executionPromise t" using t by simp
  ultimately show ?thesis using Inr
    by (intro step_from_core) (auto simp: perform_def or_unchanged_def)
qed

lemma step_inv: "inv s \<Longrightarrow> inv (step cfg s ev)"
  by (cases ev)
    (simp_all add: step_Connect_inv step_ConnectDone_inv step_Start_inv step_Pause_inv
      step_Resume_inv step_Stop_inv step_TurnDone_inv)

lemma exec_inv: "inv s \<Longrightarrow> inv (exec cfg s evs)"
  by (induction evs arbitrary: s) (simp_all add: exec_def step_inv)

lemma init_inv: "inv (init cfg persisted sums lgs)"
  by (simp add: inv_def inv_core_def init_def)

lemma run_inv: "inv (run cfg persisted sums lgs evs)"
  by (simp add: run_def exec_inv init_inv)

section \<open>Claims on the life cycle\<close>

text \<open>
  C9. After any sequence of events from the state the constructor leaves, whenever the
  debate status is not idle the run id is not the empty string.
\<close>

theorem runId_when_not_idle:
  "d_status (debate (run cfg persisted sums lgs evs)) \<noteq> Idle \<longrightarrow>
   d_runId (debate (run cfg persisted sums lgs evs)) \<noteq> []"
  using run_inv [of cfg persisted sums lgs evs] by (auto simp: inv_def inv_core_def)

theorem runId_when_not_idle_witness:
  "d_status (debate (run demo_cfg (\<lambda>a. []) Map.empty Map.empty
                      (demo_connect @ [Start ''t'' None ''s'' ''x'']))) = Running
   \<and> d_runId (debate (run demo_cfg (\<lambda>a. []) Map.empty Map.empty
                        (demo_connect @ [Start ''t'' None ''s'' ''x'']))) \<noteq> []"
  using runId_when_not_idle [of demo_cfg "\<lambda>a. []" Map.empty Map.empty
      "demo_connect @ [Start ''t'' None ''s'' ''x'']"]
  by (simp add: demo_cfg_def demo_result_def demo_connect_def engine_defs)

lemma startDebate_fails_iff:
  "(\<exists>e. startDebate cfg s tp mra stamp suffix = Inl e) \<longleftrightarrow>
     (js_trim tp = [] \<or> executionPromise s
      \<or> ses_status (agents s Gemini) \<noteq> Ready \<or> ses_status (agents s Codex) \<noteq> Ready)"
  by (auto simp: startDebate_def Let_def split: prod.splits)

lemma startDebate_already:
  "js_trim tp \<noteq> [] \<Longrightarrow> executionPromise s \<Longrightarrow>
   startDebate cfg s tp mra stamp suffix = Inl AlreadyRunning"
  by (simp add: startDebate_def Let_def)

lemma startDebate_promise:
  "startDebate cfg s tp mra stamp suffix = Inr t \<Longrightarrow> executionPromise t"
  by (auto dest!: startDebate_Inr)

lemma start_step_promise:
  assumes "startDebate cfg s tp mra stamp suffix = Inr t"
    "1 \<le> (case mra of Some m \<Rightarrow> m | None \<Rightarrow> defaultMaxRounds cfg)"
  shows "executionPromise (step cfg s (Start tp mra stamp suffix))"
proof -
  from startDebate_Inr [OF assms(1)] obtain s4 where
    t: "t = (loop_iter 1 [] s4)\<lparr>executionPromise := True\<rparr>" and ok: "run_ok s4" "turn_flags s4"
      "d_status (debate s4) = Running"
      "d_maxRounds (debate s4) = (case mra of Some m \<Rightarrow> m | None \<Rightarrow> defaultMaxRounds cfg)"
    by blast
  have "\<exists>rid p. loop t = AwaitCodex 1 rid p"
    using ok assms(2) by (auto simp: t loop_iter_def Let_def invokeTurn_begin_def run_ok_def turn_flags_def)
  then show ?thesis using assms(1) t
    by (auto simp: step_def perform_def or_unchanged_def wake_def settle_def)
qed

lemma active_status:
  "inv s \<Longrightarrow> executionPromise s \<longleftrightarrow>
     (d_status (debate s) = Running \<or> d_status (debate s) = PauseRequested
      \<or> d_status (debate s) = Paused \<or> d_status (debate s) = Stopping)"
  by (auto simp: inv_def inv_core_def turn_flags_def split: loop_point.splits)

text \<open>
  C2. \<open>startDebate\<close> fails exactly when the topic is empty or white space, a run is
  active (\<open>executionPromise\<close> is set) or one of the agents is not ready, and with a
  non-blank topic and an active run the error is the one of a run already going on. So
  after a \<open>startDebate\<close> that succeeded, a second one fails with that error: called
  directly after the first, in every case, and called as the next event whenever the
  first run has at least one round. In every state reached from the initial one,
  \<open>executionPromise\<close> is set exactly while a loop is suspended, that is while the status
  is running, pause requested, paused or stopping: a run is never started beside another.
\<close>

theorem startDebate_guards:
  "((\<exists>e. startDebate cfg s tp mra stamp suffix = Inl e) \<longleftrightarrow>
      (js_trim tp = [] \<or> executionPromise s
       \<or> ses_status (agents s Gemini) \<noteq> Ready \<or> ses_status (agents s Codex) \<noteq> Ready))
   \<and> (js_trim tp \<noteq> [] \<and> executionPromise s \<longrightarrow>
        startDebate cfg s tp mra stamp suffix = Inl AlreadyRunning)
   \<and> (startDebate cfg s tp mra stamp suffix = Inr t \<and> js_trim tp' \<noteq> [] \<longrightarrow>
        startDebate cfg t tp' mra' stamp' suffix' = Inl AlreadyRunning)
   \<and> (startDebate cfg s tp mra stamp suffix = Inr t \<and> js_trim tp' \<noteq> []
        \<and> 1 \<le> (case mra of Some m \<Rightarrow> m | None \<Rightarrow> defaultMaxRounds cfg) \<longrightarrow>
        startDebate cfg (step cfg s (Start tp mra stamp suffix)) tp' mra' stamp' suffix'
          = Inl AlreadyRunning)
   \<and> (executionPromise (run cfg persisted sums lgs evs)
        \<longleftrightarrow> loop (run cfg persisted sums lgs evs) \<noteq> NoLoop)
   \<and> (executionPromise (run cfg persisted sums lgs evs) \<longleftrightarrow>
        (d_status (debate (run cfg persisted sums lgs evs)) = Running
         \<or> d_status (debate (run cfg persisted sums lgs evs)) = PauseRequested
         \<or> d_status (debate (run cfg persisted sums lgs evs)) = Paused
         \<or> d_status (debate (run cfg persisted sums lgs evs)) = Stopping))"
proof -
  have a: "inv (run cfg persisted sums lgs evs)" by (rule run_inv)
  have c3: "startDebate cfg s tp mra stamp suffix = Inr t \<and> js_trim tp' \<noteq> [] \<longrightarrow>
        startDebate cfg t tp' mra' stamp' suffix' = Inl AlreadyRunning"
    using startDebate_promise [of cfg s tp mra stamp suffix t]
      startDebate_already [of tp' t cfg mra' stamp' suffix'] by blast
  have c4: "startDebate cfg s tp mra stamp suffix = Inr t \<and> js_trim tp' \<noteq> []
        \<and> 1 \<le> (case mra of Some m \<Rightarrow> m | None \<Rightarrow> defaultMaxRounds cfg) \<longrightarrow>
        startDebate cfg (step cfg s (Start tp mra stamp suffix)) tp' mra' stamp' suffix'
          = Inl AlreadyRunning"
    using start_step_promise [of cfg s tp mra stamp suffix t]
      startDebate_already [of tp' "step cfg s (Start tp mra stamp suffix)" cfg mra' stamp' suffix']
    by blast
  have c5: "executionPromise (run cfg persisted sums lgs evs)
        \<longleftrightarrow> loop (run cfg persisted sums lgs evs) \<noteq> NoLoop"
    using a by (simp add: inv_def)
  show ?thesis
    using startDebate_fails_iff [of cfg s tp mra stamp suffix]
      startDebate_already [of tp s cfg mra stamp suffix] c3 c4 c5 active_status [OF a]
    by blast
qed

theorem startDebate_guards_witness:
  "(case startDebate demo_cfg demo_ready ''topic'' None ''s'' ''x'' of
      Inl e \<Rightarrow> False
    | Inr t \<Rightarrow> startDebate demo_cfg t ''topic'' None ''s'' ''y'' = Inl AlreadyRunning)
   \<and> startDebate demo_cfg (step demo_cfg demo_ready (Start ''topic'' None ''s'' ''x''))
        ''topic'' None ''s'' ''y'' = Inl AlreadyRunning
   \<and> startDebate demo_cfg demo_ready ''  '' None ''s'' ''x'' = Inl EmptyTopic
   \<and> startDebate demo_cfg (init demo_cfg (\<lambda>a. []) Map.empty Map.empty) ''topic'' None ''s'' ''x''
        = Inl AgentsNotReady"
proof -
  have r: "\<not> executionPromise demo_ready" "ses_status (agents demo_ready Gemini) = Ready"
    "ses_status (agents demo_ready Codex) = Ready"
    by (simp_all add: demo_ready_def demo_cfg_def demo_result_def demo_connect_def engine_defs)
  have "\<not> (\<exists>e. startDebate demo_cfg demo_ready ''topic'' None ''s'' ''x'' = Inl e)"
    using r startDebate_guards [of demo_cfg demo_ready "''topic''" None "''s''" "''x''"]
    by (simp add: js_trim_def is_ws_def)
  then obtain t where t: "startDebate demo_cfg demo_ready ''topic'' None ''s'' ''x'' = Inr t"
    by (cases "startDebate demo_cfg demo_ready ''topic'' None ''s'' ''x''") auto
  have two: "startDebate demo_cfg t ''topic'' None ''s'' ''y'' = Inl AlreadyRunning"
    "startDebate demo_cfg (step demo_cfg demo_ready (Start ''topic'' None ''s'' ''x''))
        ''topic'' None ''s'' ''y'' = Inl AlreadyRunning"
    using t startDebate_guards [of demo_cfg demo_ready "''topic''" None "''s''" "''x''" t
        "''topic''" None "''s''" "''y''"]
    by (simp_all add: js_trim_def is_ws_def demo_cfg_def)
  have three: "startDebate demo_cfg demo_ready ''  '' None ''s'' ''x'' = Inl EmptyTopic"
    by (simp add: startDebate_def js_trim_def is_ws_def)
  have four: "startDebate demo_cfg (init demo_cfg (\<lambda>a. []) Map.empty Map.empty) ''topic'' None ''s'' ''x''
        = Inl AgentsNotReady"
    by (simp add: startDebate_def js_trim_def is_ws_def init_def)
  show ?thesis using t two three four by simp
qed

section \<open>The order of turns\<close>

lemma ended_shape:
  "loop (after_loop st rsn s) = NoLoop \<and> silent s (after_loop st rsn s)
     \<and> d_round (debate (after_loop st rsn s)) = d_round (debate s)"
  "loop (loop_catch msg s) = NoLoop \<and> silent s (loop_catch msg s)
     \<and> d_round (debate (loop_catch msg s)) = d_round (debate s)"
  by (simp_all add: silent_def)

lemma loop_iter_shape:
  "(loop (loop_iter r l s) = NoLoop \<and> silent s (loop_iter r l s)
      \<and> d_round (debate (loop_iter r l s)) = d_round (debate s)
        \<or> d_round (debate (loop_iter r l s)) = r \<and> loop (loop_iter r l s) = NoLoop \<and> silent s (loop_iter r l s))
   \<or> (\<exists>rid p. loop (loop_iter r l s) = AwaitCodex r rid p) \<and> issues s r Codex (loop_iter r l s)
      \<and> d_round (debate (loop_iter r l s)) = r \<and> same_flags s (loop_iter r l s)
      \<and> \<not> stopRequested s"
  by (auto simp: loop_iter_def Let_def invokeTurn_begin_def silent_def issues_def same_flags_def)

lemma codex_done_shape:
  "d_round (debate (codex_done r rid p out s)) = d_round (debate s)
   \<and> (loop (codex_done r rid p out s) = NoLoop \<and> silent s (codex_done r rid p out s)
      \<or> (\<exists>rid' p' c. loop (codex_done r rid p out s) = AwaitGemini r rid' p' c)
         \<and> issues s r Gemini (codex_done r rid p out s)
         \<and> same_flags s (codex_done r rid p out s) \<and> \<not> stopRequested s)"
  by (auto simp: codex_done_def Let_def invokeTurn_begin_def silent_def issues_def
      same_flags_def split: sum.splits prod.splits
      dest!: invokeTurn_end_Inl invokeTurn_end_Inr)

lemma gemini_done_shape:
  "(loop (gemini_done cfg r rid p c out s) = NoLoop \<and> silent s (gemini_done cfg r rid p c out s)
      \<and> (d_round (debate (gemini_done cfg r rid p c out s)) = d_round (debate s)
          \<or> \<not> pauseRequested s \<and> \<not> stopRequested s))
   \<or> ((\<exists>l. loop (gemini_done cfg r rid p c out s) = AwaitPause r l)
       \<and> silent s (gemini_done cfg r rid p c out s)
       \<and> d_round (debate (gemini_done cfg r rid p c out s)) = d_round (debate s)
       \<and> pauseRequested (gemini_done cfg r rid p c out s)
       \<and> \<not> stopRequested (gemini_done cfg r rid p c out s)
       \<and> pauseWait (gemini_done cfg r rid p c out s)
       \<and> d_status (debate (gemini_done cfg r rid p c out s)) = Paused)
   \<or> ((\<exists>rid' p'. loop (gemini_done cfg r rid p c out s) = AwaitCodex (r + 1) rid' p')
       \<and> issues s (r + 1) Codex (gemini_done cfg r rid p c out s)
       \<and> d_round (debate (gemini_done cfg r rid p c out s)) = r + 1
       \<and> same_flags s (gemini_done cfg r rid p c out s)
       \<and> \<not> pauseRequested s \<and> \<not> stopRequested s)"
proof (cases "invokeTurn_end Gemini Codex r p rid out s")
  case (Inl e)
  obtain msg s1 where e: "e = (msg, s1)" by (cases e)
  from invokeTurn_end_Inl [OF Inl [unfolded e]] show ?thesis
    using Inl e by (simp add: gemini_done_def silent_def)
next
  case (Inr e)
  obtain g s1 where e: "e = (g, s1)" by (cases e)
  note f = invokeTurn_end_Inr [OF Inr [unfolded e]]
  have sf: "silent s s1" "same_flags s s1" "d_round (debate s1) = d_round (debate s)"
    using f by (simp_all add: silent_def same_flags_def)
  show ?thesis
  proof (cases "stopRequested s1 \<or> consensusRegex cfg (res_text c) \<or> consensusRegex cfg (res_text g)")
    case True
    then show ?thesis using Inr e sf by (auto simp: gemini_done_def silent_def)
  next
    case False
    show ?thesis
    proof (cases "pauseRequested s1")
      case True
      then show ?thesis using Inr e sf False
        by (auto simp: gemini_done_def silent_def same_flags_def waitUntilResumedOrStopped_def)
    next
      case nopause: False
      have g: "gemini_done cfg r rid p c out s = loop_iter (r + 1) (res_text g) s1"
        using Inr e False nopause by (simp add: gemini_done_def)
      show ?thesis using loop_iter_shape [of "r + 1" "res_text g" s1] sf False nopause
        unfolding g by (auto simp: silent_def same_flags_def issues_def)
    qed
  qed
qed

lemma after_pause_shape:
  "(loop (after_pause r l s) = NoLoop \<and> silent s (after_pause r l s)
      \<and> (d_round (debate (after_pause r l s)) = d_round (debate s) \<or> \<not> stopRequested s))
   \<or> (\<exists>rid p. loop (after_pause r l s) = AwaitCodex (r + 1) rid p)
      \<and> issues s (r + 1) Codex (after_pause r l s)
      \<and> d_round (debate (after_pause r l s)) = r + 1 \<and> same_flags s (after_pause r l s)
      \<and> \<not> stopRequested s"
  using loop_iter_shape [of "r + 1" l s]
  by (auto simp: after_pause_def silent_def)

text \<open>Turns among the calls.\<close>

lemma turn_order_snoc:
  "turn_order prev (ts @ [t]) \<longleftrightarrow>
     turn_order prev ts \<and> turn_follows (if ts = [] then prev else Some (last ts)) t"
  by (induction ts arbitrary: prev) auto

lemma filter_remove_first:
  "(\<And>x. Q x \<Longrightarrow> \<not> P x) \<Longrightarrow> filter P (remove_first Q xs) = filter P xs"
  by (induction xs) auto

lemma length_filter_remove_first:
  "length (filter P (remove_first P xs)) = length (filter P xs) - 1"
  by (induction xs) auto

lemma issues_turns:
  "issues s r a t \<Longrightarrow>
     turn_calls t = turn_calls s @ [(r, a)] \<and> outstanding_turns t = outstanding_turns s + 1"
  by (auto simp: issues_def turn_calls_def outstanding_turns_def is_turn_def)

lemma silent_turns:
  "silent s t \<Longrightarrow> turn_calls t = turn_calls s \<and> outstanding_turns t = outstanding_turns s"
  by (simp add: silent_def turn_calls_def outstanding_turns_def)

lemma inv_calls_frame:
  "loop t = loop s \<Longrightarrow> turn_calls t = turn_calls s \<Longrightarrow>
   outstanding_turns t = outstanding_turns s \<Longrightarrow> inv_calls t = inv_calls s"
  by (simp add: inv_calls_def last_turn_def split: loop_point.split)

lemma settle_turns [simp]:
  "loop (settle t) = loop t" "turn_calls (settle t) = turn_calls t"
  "outstanding_turns (settle t) = outstanding_turns t"
  by (simp_all add: settle_def turn_calls_def outstanding_turns_def)

lemma inv_calls_settle [simp]: "inv_calls (settle t) = inv_calls t"
  by (rule inv_calls_frame) simp_all

lemma inv_calls_ended:
  "loop t = NoLoop \<Longrightarrow> turn_calls t = turn_calls s \<Longrightarrow> outstanding_turns t = 0 \<Longrightarrow>
   turn_order None (turn_calls s) \<Longrightarrow> inv_calls t"
  by (simp add: inv_calls_def)

lemma inv_calls_issue:
  assumes "turn_order None (turn_calls s)" "outstanding_turns s = 0" "issues s r a t"
    "turn_follows (last_turn s) (r, a)"
    "case a of Codex \<Rightarrow> \<exists>rid p. loop t = AwaitCodex r rid p
             | Gemini \<Rightarrow> \<exists>rid p c. loop t = AwaitGemini r rid p c"
  shows "inv_calls t"
  using assms issues_turns [OF assms(3)]
  by (cases a) (auto simp: inv_calls_def last_turn_def turn_order_snoc)

lemma loop_iter_calls:
  assumes "turn_order None (turn_calls s)" "outstanding_turns s = 0"
    "turn_follows (last_turn s) (r, Codex)"
  shows "inv_calls (loop_iter r l s)"
  using loop_iter_shape [of r l s]
proof (elim disjE conjE)
  assume "(\<exists>rid p. loop (loop_iter r l s) = AwaitCodex r rid p)" "issues s r Codex (loop_iter r l s)"
  then show ?thesis using inv_calls_issue [OF assms(1,2) _ assms(3)] by simp
qed (use assms silent_turns in \<open>auto intro: inv_calls_ended\<close>)

lemma after_pause_calls:
  assumes "turn_order None (turn_calls s)" "outstanding_turns s = 0"
    "last_turn s = Some (r, Gemini)"
  shows "inv_calls (after_pause r l s)"
proof (cases "stopRequested s")
  case True
  then show ?thesis using assms by (auto simp: after_pause_def intro!: inv_calls_ended [of _ s] dest: silent_turns simp: turn_calls_def outstanding_turns_def)
next
  case False
  then show ?thesis using loop_iter_calls [OF assms(1,2), of "r + 1" l] assms(3)
    by (simp add: after_pause_def turn_follows_def)
qed

lemma codex_done_calls:
  assumes "turn_order None (turn_calls s)" "outstanding_turns s = 0"
    "last_turn s = Some (r, Codex)"
  shows "inv_calls (codex_done r rid p out s)"
  using codex_done_shape [of r rid p out s]
proof (elim disjE conjE)
  assume "\<exists>rid' p' c. loop (codex_done r rid p out s) = AwaitGemini r rid' p' c"
    "issues s r Gemini (codex_done r rid p out s)"
  then show ?thesis using inv_calls_issue [OF assms(1,2), of r Gemini] assms(3)
    by (simp add: turn_follows_def)
qed (use assms silent_turns in \<open>auto intro: inv_calls_ended\<close>)

lemma gemini_done_calls:
  assumes "turn_order None (turn_calls s)" "outstanding_turns s = 0"
    "last_turn s = Some (r, Gemini)"
  shows "inv_calls (gemini_done cfg r rid p c out s)"
  using gemini_done_shape [of cfg r rid p c out s]
proof (elim disjE conjE)
  assume "\<exists>rid' p'. loop (gemini_done cfg r rid p c out s) = AwaitCodex (r + 1) rid' p'"
    "issues s (r + 1) Codex (gemini_done cfg r rid p c out s)"
  then show ?thesis using inv_calls_issue [OF assms(1,2), of "r + 1" Codex] assms(3)
    by (simp add: turn_follows_def)
next
  assume "\<exists>l. loop (gemini_done cfg r rid p c out s) = AwaitPause r l"
    "silent s (gemini_done cfg r rid p c out s)"
  then show ?thesis using assms silent_turns [of s "gemini_done cfg r rid p c out s"]
    by (auto simp: inv_calls_def last_turn_def)
qed (use assms silent_turns in \<open>auto intro: inv_calls_ended\<close>)

lemma wake_unless_resolved:
  "(\<And>r l. loop t = AwaitPause r l \<Longrightarrow> pauseWait t) \<Longrightarrow> wake t = t"
  by (auto simp: wake_def split: loop_point.splits)

lemma inv_paused_wait: "inv s \<Longrightarrow> loop s = AwaitPause r l \<Longrightarrow> pauseWait s"
  by (simp add: inv_def inv_core_def)

lemma step_outside:
  assumes "inv s" "perform cfg s ev = t" "loop t = loop s" "pauseWait t = pauseWait s"
  shows "step cfg s ev = settle t"
proof -
  have "wake t = t"
    using inv_paused_wait [OF assms(1)] assms(3,4) by (intro wake_unless_resolved) metis
  then show ?thesis using assms(2) by (simp add: step_def)
qed

lemma turn_calls_more [simp]:
  "turn_calls (s\<lparr>pending := x\<rparr>) = turn_calls s"
  "turn_calls (s\<lparr>executionPromise := b\<rparr>) = turn_calls s"
  "turn_calls (s\<lparr>pauseWait := b\<rparr>) = turn_calls s"
  "outstanding_turns (s\<lparr>executionPromise := b\<rparr>) = outstanding_turns s"
  "outstanding_turns (s\<lparr>pauseWait := b\<rparr>) = outstanding_turns s"
  by (simp_all add: turn_calls_def outstanding_turns_def)

lemma perform_Connect:
  "loop (perform cfg s (Connect a rs)) = loop s
   \<and> pauseWait (perform cfg s (Connect a rs)) = pauseWait s
   \<and> pauseRequested (perform cfg s (Connect a rs)) = pauseRequested s
   \<and> stopRequested (perform cfg s (Connect a rs)) = stopRequested s
   \<and> debate (perform cfg s (Connect a rs)) = debate s
   \<and> consecutiveEmptyResponses (perform cfg s (Connect a rs)) = consecutiveEmptyResponses s
   \<and> turn_calls (perform cfg s (Connect a rs)) = turn_calls s
   \<and> outstanding_turns (perform cfg s (Connect a rs)) = outstanding_turns s"
  by (auto simp: perform_def or_unchanged_def connectAgent_begin_def turn_calls_def
      outstanding_turns_def is_turn_def)

lemma perform_ConnectDone:
  "loop (perform cfg s (ConnectDone a out)) = loop s
   \<and> pauseWait (perform cfg s (ConnectDone a out)) = pauseWait s
   \<and> pauseRequested (perform cfg s (ConnectDone a out)) = pauseRequested s
   \<and> stopRequested (perform cfg s (ConnectDone a out)) = stopRequested s
   \<and> debate (perform cfg s (ConnectDone a out)) = debate s
   \<and> consecutiveEmptyResponses (perform cfg s (ConnectDone a out)) = consecutiveEmptyResponses s
   \<and> turn_calls (perform cfg s (ConnectDone a out)) = turn_calls s
   \<and> outstanding_turns (perform cfg s (ConnectDone a out)) = outstanding_turns s"
proof -
  have "filter is_turn (remove_first (is_probe_of a) (pending s)) = filter is_turn (pending s)"
    by (rule filter_remove_first) (simp add: is_probe_of_def is_turn_def)
  then show ?thesis
    by (auto simp: perform_def connectAgent_end_def turn_calls_def outstanding_turns_def
        split: outcome.splits)
qed

lemma perform_Pause:
  "loop (perform cfg s Pause) = loop s
   \<and> pauseWait (perform cfg s Pause) = pauseWait s
   \<and> stopRequested (perform cfg s Pause) = stopRequested s
   \<and> (pauseRequested s \<longrightarrow> pauseRequested (perform cfg s Pause))
   \<and> d_round (debate (perform cfg s Pause)) = d_round (debate s)
   \<and> consecutiveEmptyResponses (perform cfg s Pause) = consecutiveEmptyResponses s
   \<and> turn_calls (perform cfg s Pause) = turn_calls s
   \<and> outstanding_turns (perform cfg s Pause) = outstanding_turns s"
  by (auto simp: perform_def or_unchanged_def pauseDebate_def turn_calls_def
      outstanding_turns_def)

lemma perform_Stop:
  "loop (perform cfg s Stop) = loop s
   \<and> (stopRequested s \<longrightarrow> stopRequested (perform cfg s Stop))
   \<and> pauseRequested (perform cfg s Stop) = pauseRequested s
   \<and> d_round (debate (perform cfg s Stop)) = d_round (debate s)
   \<and> consecutiveEmptyResponses (perform cfg s Stop) = consecutiveEmptyResponses s
   \<and> turn_calls (perform cfg s Stop) = turn_calls s
   \<and> outstanding_turns (perform cfg s Stop) = outstanding_turns s
   \<and> (pauseWait (perform cfg s Stop) \<longrightarrow> pauseWait s)
   \<and> (pauseWait s \<and> \<not> pauseWait (perform cfg s Stop) \<longrightarrow> stopRequested (perform cfg s Stop))
   \<and> (pauseWait s \<and> pauseWait (perform cfg s Stop) \<longrightarrow> perform cfg s Stop = s)"
  by (auto simp: perform_def or_unchanged_def stopDebate_def resolve_pauseWait_def
      turn_calls_def outstanding_turns_def)

lemma perform_Resume:
  "loop (perform cfg s Resume) = loop s
   \<and> stopRequested (perform cfg s Resume) = stopRequested s
   \<and> d_round (debate (perform cfg s Resume)) = d_round (debate s)
   \<and> consecutiveEmptyResponses (perform cfg s Resume) = consecutiveEmptyResponses s
   \<and> turn_calls (perform cfg s Resume) = turn_calls s
   \<and> outstanding_turns (perform cfg s Resume) = outstanding_turns s
   \<and> (pauseWait (perform cfg s Resume) \<longrightarrow> pauseWait s)
   \<and> (pauseWait s \<and> pauseWait (perform cfg s Resume) \<longrightarrow> perform cfg s Resume = s)"
  by (auto simp: perform_def or_unchanged_def resumeDebate_def resolve_pauseWait_def
      turn_calls_def outstanding_turns_def)

lemma wake_calls:
  assumes "turn_order None (turn_calls t)"
    "case loop t of NoLoop \<Rightarrow> outstanding_turns t = 0
     | AwaitCodex r runId p \<Rightarrow> last_turn t = Some (r, Codex) \<and> outstanding_turns t = 1
     | AwaitGemini r runId p c \<Rightarrow> last_turn t = Some (r, Gemini) \<and> outstanding_turns t = 1
     | AwaitPause r latestGemini \<Rightarrow> last_turn t = Some (r, Gemini) \<and> outstanding_turns t = 0"
  shows "inv_calls (wake t)"
proof (cases "\<exists>r l. loop t = AwaitPause r l \<and> \<not> pauseWait t")
  case True
  then obtain r l where l: "loop t = AwaitPause r l" "\<not> pauseWait t" by blast
  then have "wake t = after_pause r l t" by (simp add: wake_def)
  then show ?thesis using after_pause_calls [OF assms(1), of r l] assms(2) l by simp
next
  case False
  then have "wake t = t" by (intro wake_unless_resolved) auto
  then show ?thesis using assms by (simp add: inv_calls_def)
qed

lemma inv_calls_unfold:
  "inv_calls s \<Longrightarrow> loop t = loop s \<Longrightarrow> turn_calls t = turn_calls s \<Longrightarrow>
   outstanding_turns t = outstanding_turns s \<Longrightarrow>
   turn_order None (turn_calls t)
   \<and> (case loop t of NoLoop \<Rightarrow> outstanding_turns t = 0
     | AwaitCodex r runId p \<Rightarrow> last_turn t = Some (r, Codex) \<and> outstanding_turns t = 1
     | AwaitGemini r runId p c \<Rightarrow> last_turn t = Some (r, Gemini) \<and> outstanding_turns t = 1
     | AwaitPause r latestGemini \<Rightarrow> last_turn t = Some (r, Gemini) \<and> outstanding_turns t = 0)"
  by (auto simp: inv_calls_def last_turn_def split: loop_point.splits if_splits)

lemma step_calls_simple:
  assumes "inv_calls s" "loop (perform cfg s ev) = loop s"
    "turn_calls (perform cfg s ev) = turn_calls s"
    "outstanding_turns (perform cfg s ev) = outstanding_turns s"
  shows "inv_calls (step cfg s ev)"
  using inv_calls_unfold [OF assms] wake_calls [of "perform cfg s ev"]
  by (simp add: step_def)

lemma step_TurnDone_calls:
  assumes "inv s" "inv_calls s"
  shows "inv_calls (step cfg s (TurnDone out))"
proof -
  let ?s' = "s\<lparr>pending := remove_first is_turn (pending s)\<rparr>"
  have o: "outstanding_turns ?s' = outstanding_turns s - 1"
    by (simp add: outstanding_turns_def length_filter_remove_first)
  have lt: "last_turn ?s' = last_turn s" by (simp add: last_turn_def)
  have core: "inv_core (perform cfg s (TurnDone out))"
    using step_TurnDone_inv [OF assms(1), of cfg out] assms(1)
  proof (cases "loop s")
    case (AwaitCodex r rid p)
    then show ?thesis using assms(1) codex_done_inv [of ?s' r rid p out]
      by (simp add: perform_def inv_def inv_core_def run_ok_def turn_flags_def)
  next
    case (AwaitGemini r rid p c)
    then show ?thesis using assms(1) gemini_done_inv [of ?s' r cfg rid p c out]
      by (simp add: perform_def inv_def inv_core_def run_ok_def turn_flags_def)
  qed (simp_all add: perform_def inv_def)
  have "inv_calls (perform cfg s (TurnDone out))"
  proof (cases "loop s")
    case (AwaitCodex r rid p)
    then show ?thesis using assms(2) codex_done_calls [of ?s' r rid p out] o lt
      by (simp add: perform_def inv_calls_def)
  next
    case (AwaitGemini r rid p c)
    then show ?thesis using assms(2) gemini_done_calls [of ?s' r cfg rid p c out] o lt
      by (simp add: perform_def inv_calls_def)
  qed (use assms(2) in \<open>simp_all add: perform_def\<close>)
  then show ?thesis using core by (simp add: step_def wake_id)
qed

lemma step_Start_calls:
  assumes "inv s" "inv_calls s"
  shows "inv_calls (step cfg s (Start tp mra stamp suffix))"
proof (cases "startDebate cfg s tp mra stamp suffix")
  case (Inl e)
  then show ?thesis using assms(2)
    by (intro step_calls_simple) (simp_all add: perform_def or_unchanged_def)
next
  case (Inr t)
  from startDebate_Inr [OF Inr] obtain s4 where
    t: "t = (loop_iter 1 [] s4)\<lparr>executionPromise := True\<rparr>" and ok: "run_ok s4" "turn_flags s4"
      "calls s4 = calls s" "pending s4 = pending s" "\<not> executionPromise s"
    by blast
  have n: "loop s = NoLoop" using assms(1) ok(5) by (simp add: inv_def)
  have pre: "turn_order None (turn_calls s4)" "outstanding_turns s4 = 0"
    using assms(2) n ok(3,4) by (simp_all add: inv_calls_def turn_calls_def outstanding_turns_def)
  have "inv_calls (loop_iter 1 [] s4)"
    using loop_iter_calls [OF pre, of 1 "[]"] by (simp add: turn_follows_def)
  then have c: "inv_calls t" unfolding t
    by (subst inv_calls_frame [of _ "loop_iter 1 [] s4"]) simp_all
  have "inv_core t" using loop_iter_inv [OF ok(1)] ok(2) t by simp
  then show ?thesis using c Inr by (simp add: step_def perform_def or_unchanged_def wake_id)
qed

lemma step_calls: "inv s \<Longrightarrow> inv_calls s \<Longrightarrow> inv_calls (step cfg s ev)"
proof (cases ev)
  case (Connect a rs)
  assume "inv_calls s"
  then show ?thesis using perform_Connect [of cfg s a rs] Connect
    by (intro step_calls_simple) simp_all
next
  case (ConnectDone a out)
  assume "inv_calls s"
  then show ?thesis using perform_ConnectDone [of cfg s a out] ConnectDone
    by (intro step_calls_simple) simp_all
next
  case Pause
  assume "inv_calls s"
  then show ?thesis using perform_Pause [of cfg s] Pause
    by (intro step_calls_simple) simp_all
next
  case Resume
  assume "inv_calls s"
  then show ?thesis using perform_Resume [of cfg s] Resume
    by (intro step_calls_simple) simp_all
next
  case Stop
  assume "inv_calls s"
  then show ?thesis using perform_Stop [of cfg s] Stop
    by (intro step_calls_simple) simp_all
qed (simp_all add: step_Start_calls step_TurnDone_calls)

lemma run_calls: "inv_calls (run cfg persisted sums lgs evs)"
proof -
  have "inv s \<Longrightarrow> inv_calls s \<Longrightarrow> inv_calls (exec cfg s evs)" for s
  proof (induction evs arbitrary: s)
    case Nil
    then show ?case by (simp add: exec_def)
  next
    case (Cons ev evs)
    then show ?case using step_inv [of s cfg ev] step_calls [of s cfg ev]
      by (simp add: exec_def)
  qed
  moreover have "inv_calls (init cfg persisted sums lgs)"
    by (simp add: inv_calls_def init_def turn_calls_def outstanding_turns_def)
  ultimately show ?thesis by (simp add: run_def init_inv)
qed

lemma turn_order_mid:
  "turn_order prev (pre @ t # post) \<Longrightarrow>
   turn_follows (if pre = [] then prev else Some (last pre)) t"
  by (induction pre arbitrary: prev) auto

lemma awaits_turn_outstanding:
  "inv_calls s \<Longrightarrow> outstanding_turns s \<le> 1 \<and> (outstanding_turns s = 1 \<longleftrightarrow> awaits_turn s)"
  by (auto simp: inv_calls_def awaits_turn_def split: loop_point.splits)

text \<open>
  C4, as amended. In every state reached from the initial one, the turns the runner has
  received are in order: a turn addressed to Gemini in round \<open>r\<close> comes directly after
  the turn addressed to Codex in round \<open>r\<close>, and a turn addressed to Codex in a round
  other than the first comes directly after the turn addressed to Gemini in the round
  before. At most one turn is outstanding, and one is outstanding exactly while the loop
  is suspended at a call of the runner.
\<close>

theorem turns_alternate:
  "turn_order None (turn_calls (run cfg persisted sums lgs evs))
   \<and> (\<forall>pre r post. turn_calls (run cfg persisted sums lgs evs) = pre @ (r, Gemini) # post
         \<longrightarrow> pre \<noteq> [] \<and> last pre = (r, Codex))
   \<and> (\<forall>pre r post. turn_calls (run cfg persisted sums lgs evs) = pre @ (r, Codex) # post
         \<and> r \<noteq> 1 \<longrightarrow> pre \<noteq> [] \<and> last pre = (r - 1, Gemini))
   \<and> outstanding_turns (run cfg persisted sums lgs evs) \<le> 1
   \<and> (outstanding_turns (run cfg persisted sums lgs evs) = 1
        \<longleftrightarrow> awaits_turn (run cfg persisted sums lgs evs))"
proof -
  let ?s = "run cfg persisted sums lgs evs"
  have c: "inv_calls ?s" by (rule run_calls)
  then have o: "turn_order None (turn_calls ?s)" by (simp add: inv_calls_def)
  have g: "pre \<noteq> [] \<and> last pre = (r, Codex)"
    if "turn_calls ?s = pre @ (r, Gemini) # post" for pre r post
    using turn_order_mid [of None pre "(r, Gemini)" post] o that
    by (auto simp: turn_follows_def split: if_splits)
  have x: "pre \<noteq> [] \<and> last pre = (r - 1, Gemini)"
    if "turn_calls ?s = pre @ (r, Codex) # post \<and> r \<noteq> 1" for pre r post
    using turn_order_mid [of None pre "(r, Codex)" post] o that
    by (auto simp: turn_follows_def split: if_splits)
  show ?thesis using o g x awaits_turn_outstanding [OF c] by blast
qed

lemma demo_two_rounds_calls:
  "turn_calls (run demo_cfg (\<lambda>a. []) Map.empty Map.empty demo_two_rounds)
     = [(1, Codex), (1, Gemini), (2, Codex), (2, Gemini)]"
  by (simp add: demo_two_rounds_def demo_cfg_def demo_result_def demo_connect_def engine_defs
      turn_calls_def gemini_prompt_def codex_prompt_def opening_prompt_def)

theorem turns_alternate_witness:
  "turn_calls (run demo_cfg (\<lambda>a. []) Map.empty Map.empty demo_two_rounds)
     = [(1, Codex)] @ (1, Gemini) # [(2, Codex), (2, Gemini)]
   \<and> [(1, Codex)] \<noteq> [] \<and> last [(1, Codex)] = (1, Codex)
   \<and> turn_order None (turn_calls (run demo_cfg (\<lambda>a. []) Map.empty Map.empty demo_two_rounds))
   \<and> outstanding_turns (run demo_cfg (\<lambda>a. []) Map.empty Map.empty demo_two_rounds) \<le> 1"
  using turns_alternate [of demo_cfg "\<lambda>a. []" Map.empty Map.empty demo_two_rounds]
    demo_two_rounds_calls
  by simp

text \<open>
  C4 as stated fails where it counts every call of the runner: a probe of
  \<open>connectAgent\<close> that is still unsettled when the run starts is outstanding beside the
  turns of round 1, which both complete and are logged, and beside the first turn of
  round 2.
\<close>

theorem turns_counterexample:
  "d_status (debate (run demo_cfg (\<lambda>a. []) Map.empty Map.empty demo_overlap)) = Running
   \<and> map (\<lambda>i. (inv_agent i, inv_round i))
        (pending (run demo_cfg (\<lambda>a. []) Map.empty Map.empty demo_overlap))
       = [(Codex, None), (Codex, Some 1)]
   \<and> map (\<lambda>i. (inv_agent i, inv_round i))
        (pending (run demo_cfg (\<lambda>a. []) Map.empty Map.empty (demo_overlap @ demo_round)))
       = [(Codex, None), (Codex, Some 2)]
   \<and> map (\<lambda>e. (e_round e, e_from e))
        (the (logs (run demo_cfg (\<lambda>a. []) Map.empty Map.empty (demo_overlap @ demo_round))
               ''run_s_x''))
       = [(1, Codex), (1, Gemini)]"
  by (simp add: demo_overlap_def demo_defs engine_defs)

section \<open>The pause\<close>

lemma pause_pending_frame:
  assumes "pause_pending r base s" "loop t = loop s" "d_round (debate t) = d_round (debate s)"
    "turn_calls t = turn_calls s" "(\<exists>r' l. loop s = AwaitPause r' l) \<longrightarrow> pauseWait t"
    "pauseRequested s \<longrightarrow> pauseRequested t" "stopRequested s \<longrightarrow> stopRequested t"
  shows "pause_pending r base t"
  using assms by (auto simp: pause_pending_def split: loop_point.splits)

lemma pause_pending_ended:
  assumes "pause_pending r base s" "loop t = NoLoop" "d_round (debate t) = d_round (debate s)"
    "turn_calls t = turn_calls s"
  shows "pause_pending r base t"
  using assms by (auto simp: pause_pending_def)

lemma settle_more [simp]:
  "debate (settle t) = debate t" "pauseWait (settle t) = pauseWait t"
  "pauseRequested (settle t) = pauseRequested t" "stopRequested (settle t) = stopRequested t"
  "consecutiveEmptyResponses (settle t) = consecutiveEmptyResponses t"
  "cancels (settle t) = cancels t" "calls (settle t) = calls t" "pending (settle t) = pending t"
  "emitted (settle t) = emitted t" "summaries (settle t) = summaries t" "logs (settle t) = logs t"
  "agents (settle t) = agents t"
  by (simp_all add: settle_def)

lemma pause_pending_settle [simp]: "pause_pending r base (settle t) = pause_pending r base t"
  by (simp add: pause_pending_def split: loop_point.split)

lemma pause_pending_wake:
  assumes "pause_pending r base t"
  shows "wake t = t"
  using assms by (intro wake_unless_resolved) (auto simp: pause_pending_def)

lemma pause_pending_simple:
  assumes "pause_pending r base s" "loop (perform cfg s ev) = loop s"
    "d_round (debate (perform cfg s ev)) = d_round (debate s)"
    "turn_calls (perform cfg s ev) = turn_calls s"
    "(\<exists>r' l. loop s = AwaitPause r' l) \<longrightarrow> pauseWait (perform cfg s ev)"
    "pauseRequested s \<longrightarrow> pauseRequested (perform cfg s ev)"
    "stopRequested s \<longrightarrow> stopRequested (perform cfg s ev)"
  shows "pause_pending r base (step cfg s ev)"
proof -
  have p: "pause_pending r base (perform cfg s ev)" using pause_pending_frame [OF assms] .
  show ?thesis using p pause_pending_wake [OF p] by (simp add: step_def)
qed

lemma pause_pending_Stop:
  assumes "pause_pending r base s"
  shows "pause_pending r base (step cfg s Stop)"
proof (cases "\<not> pauseWait (perform cfg s Stop) \<and> (\<exists>r' l. loop s = AwaitPause r' l)")
  case True
  then obtain r' l where l: "loop s = AwaitPause r' l" by blast
  let ?t = "perform cfg s Stop"
  have "pauseWait s" using assms l by (simp add: pause_pending_def)
  then have f: "loop ?t = AwaitPause r' l" "\<not> pauseWait ?t" "stopRequested ?t"
    "d_round (debate ?t) = d_round (debate s)" "turn_calls ?t = turn_calls s"
    using perform_Stop [of cfg s] True l by auto
  then have w: "wake ?t = after_loop Stopped ''manual stop'' ?t"
    by (simp add: wake_def after_pause_def)
  have "pause_pending r base (wake ?t)"
    unfolding w using f by (intro pause_pending_ended [OF assms]) (simp_all add: turn_calls_def)
  then show ?thesis by (simp add: step_def)
next
  case False
  then show ?thesis using perform_Stop [of cfg s]
    by (intro pause_pending_simple [OF assms]) auto
qed

lemma pause_pending_TurnDone:
  assumes "pause_pending r base s"
  shows "pause_pending r base (step cfg s (TurnDone out))"
proof -
  let ?s' = "s\<lparr>pending := remove_first is_turn (pending s)\<rparr>"
  obtain new where new: "turn_calls s = base @ new" "list_all (\<lambda>x. fst x = r) new"
    using assms by (auto simp: pause_pending_def)
  have "pause_pending r base (perform cfg s (TurnDone out))"
  proof (cases "loop s")
    case (AwaitCodex r' rid p)
    then have a: "r' = r" "pauseRequested s \<or> stopRequested s" "d_round (debate s) = r"
      using assms by (auto simp: pause_pending_def)
    let ?t = "codex_done r rid p out ?s'"
    have t: "perform cfg s (TurnDone out) = ?t" using AwaitCodex a by (simp add: perform_def)
    from codex_done_shape [of r rid p out ?s'] show ?thesis unfolding t
    proof (elim conjE disjE)
      assume "loop ?t = NoLoop" "silent ?s' ?t" "d_round (debate ?t) = d_round (debate ?s')"
      then show "pause_pending r base ?t" using silent_turns [of ?s' ?t]
        by (intro pause_pending_ended [OF assms]) simp_all
    next
      assume h: "\<exists>rid' p' c. loop ?t = AwaitGemini r rid' p' c" "issues ?s' r Gemini ?t"
        "same_flags ?s' ?t" "d_round (debate ?t) = d_round (debate ?s')"
      then show "pause_pending r base ?t" using issues_turns [OF h(2)] a new
        by (auto simp: pause_pending_def same_flags_def)
    qed
  next
    case (AwaitGemini r' rid p c)
    then have a: "r' = r" "pauseRequested s \<or> stopRequested s" "d_round (debate s) = r"
      using assms by (auto simp: pause_pending_def)
    let ?t = "gemini_done cfg r rid p c out ?s'"
    have t: "perform cfg s (TurnDone out) = ?t" using AwaitGemini a by (simp add: perform_def)
    from gemini_done_shape [of cfg r rid p c out ?s'] show ?thesis unfolding t
    proof (elim conjE disjE)
      assume "loop ?t = NoLoop" "silent ?s' ?t" "d_round (debate ?t) = d_round (debate ?s')"
      then show "pause_pending r base ?t" using silent_turns [of ?s' ?t]
        by (intro pause_pending_ended [OF assms]) simp_all
    next
      assume "\<exists>l. loop ?t = AwaitPause r l" "silent ?s' ?t"
        "d_round (debate ?t) = d_round (debate ?s')" "pauseWait ?t"
      then show "pause_pending r base ?t" using silent_turns [of ?s' ?t] a new
        by (auto simp: pause_pending_def)
    qed (use a in auto)
  qed (use assms in \<open>simp_all add: perform_def\<close>)
  then show ?thesis using pause_pending_wake by (simp add: step_def)
qed

lemma pause_pending_step:
  assumes "pause_pending r base s" "\<not> is_start ev" "\<not> is_resume ev"
  shows "pause_pending r base (step cfg s ev)"
proof (cases ev)
  case (Connect a rs)
  show ?thesis unfolding Connect using perform_Connect [of cfg s a rs] assms(1)
    by (intro pause_pending_simple [OF assms(1)]) (auto simp: pause_pending_def)
next
  case (ConnectDone a out)
  show ?thesis unfolding ConnectDone using perform_ConnectDone [of cfg s a out] assms(1)
    by (intro pause_pending_simple [OF assms(1)]) (auto simp: pause_pending_def)
next
  case Pause
  show ?thesis unfolding Pause using perform_Pause [of cfg s] assms(1)
    by (intro pause_pending_simple [OF assms(1)]) (auto simp: pause_pending_def)
next
  case Stop
  then show ?thesis using pause_pending_Stop [OF assms(1)] by simp
next
  case (TurnDone out)
  then show ?thesis using pause_pending_TurnDone [OF assms(1)] by simp
qed (use assms in auto)

lemma pause_pending_exec:
  "pause_pending r base s \<Longrightarrow> list_all (\<lambda>e. \<not> is_start e \<and> \<not> is_resume e) evs \<Longrightarrow>
   pause_pending r base (exec cfg s evs)"
proof (induction evs arbitrary: s)
  case Nil
  then show ?case by (simp add: exec_def)
next
  case (Cons ev evs)
  then show ?case using pause_pending_step [of r base s ev cfg] by (simp add: exec_def)
qed

lemma pause_accepted:
  assumes "inv s" "d_status (debate s) = Running"
  shows "pause_pending (d_round (debate s)) (turn_calls s) (step cfg s Pause)
         \<and> outstanding_turns (step cfg s Pause) = outstanding_turns s
         \<and> cancels (step cfg s Pause) = cancels s
         \<and> d_status (debate (step cfg s Pause)) = PauseRequested"
proof -
  have l: "awaits_turn s" "\<not> pauseWait s \<or> awaits_turn s"
    using assms by (auto simp: inv_def inv_core_def awaits_turn_def split: loop_point.splits)
  let ?t = "perform cfg s Pause"
  have t: "?t = setDebateStatus PauseRequested (Some ''pause requested'') (s\<lparr>pauseRequested := True\<rparr>)"
    using assms(2) by (simp add: perform_def or_unchanged_def pauseDebate_def)
  have p: "pause_pending (d_round (debate s)) (turn_calls s) ?t"
    using assms l unfolding t
    by (auto simp: pause_pending_def inv_def inv_core_def awaits_turn_def turn_calls_def
        split: loop_point.splits)
  have "step cfg s Pause = settle ?t" using pause_pending_wake [OF p] by (simp add: step_def)
  then show ?thesis using p by (simp add: t outstanding_turns_def)
qed

lemma exec_append: "exec cfg s (xs @ ys) = exec cfg (exec cfg s xs) ys"
  by (simp add: exec_def)

lemma exec_Cons: "exec cfg s (x # xs) = exec cfg (step cfg s x) xs"
  by (simp add: exec_def)

text \<open>
  C5. Let \<open>pauseDebate\<close> be called in a reached state whose status is running, in round
  \<open>r\<close>. The call leaves the turn in flight outstanding and cancels nothing. Whatever
  events follow, until a resume or a new start: the round of the debate stays \<open>r\<close>
  and every turn the runner receives is a turn of round \<open>r\<close>; and whenever the status
  is paused, no turn is outstanding and the last turn received is the turn of Gemini in
  round \<open>r\<close>, so both turns of the round were issued and settled before the pause.
\<close>

theorem pause_at_round_end:
  assumes "d_status (debate (run cfg persisted sums lgs evs)) = Running"
    "list_all (\<lambda>e. \<not> is_start e \<and> \<not> is_resume e) evs'"
  shows "outstanding_turns (step cfg (run cfg persisted sums lgs evs) Pause)
           = outstanding_turns (run cfg persisted sums lgs evs)
       \<and> cancels (step cfg (run cfg persisted sums lgs evs) Pause)
           = cancels (run cfg persisted sums lgs evs)
       \<and> d_round (debate (run cfg persisted sums lgs (evs @ Pause # evs')))
           = d_round (debate (run cfg persisted sums lgs evs))
       \<and> (\<exists>new. turn_calls (run cfg persisted sums lgs (evs @ Pause # evs'))
                   = turn_calls (run cfg persisted sums lgs evs) @ new
               \<and> list_all (\<lambda>x. fst x = d_round (debate (run cfg persisted sums lgs evs))) new)
       \<and> (d_status (debate (run cfg persisted sums lgs (evs @ Pause # evs'))) = Paused \<longrightarrow>
            outstanding_turns (run cfg persisted sums lgs (evs @ Pause # evs')) = 0
            \<and> last_turn (run cfg persisted sums lgs (evs @ Pause # evs'))
                = Some (d_round (debate (run cfg persisted sums lgs evs)), Gemini))"
proof -
  let ?s = "run cfg persisted sums lgs evs"
  let ?t = "run cfg persisted sums lgs (evs @ Pause # evs')"
  have t: "?t = exec cfg (step cfg ?s Pause) evs'"
    by (simp add: run_def exec_append exec_Cons)
  note a = pause_accepted [OF run_inv assms(1), of cfg]
  have p: "pause_pending (d_round (debate ?s)) (turn_calls ?s) ?t"
    unfolding t using a assms(2) by (intro pause_pending_exec) simp_all
  have i: "inv ?t" "inv_calls ?t" by (rule run_inv, rule run_calls)
  have paused: "outstanding_turns ?t = 0 \<and> last_turn ?t = Some (d_round (debate ?s), Gemini)"
    if "d_status (debate ?t) = Paused"
  proof -
    from i(1) have "inv_core ?t" by (simp add: inv_def)
    from paused_loop [OF this that] obtain r l where l: "loop ?t = AwaitPause r l" by blast
    then have "r = d_round (debate ?s)" using p by (simp add: pause_pending_def)
    then show ?thesis using i(2) l by (simp add: inv_calls_def)
  qed
  show ?thesis using a p paused by (auto simp: pause_pending_def)
qed

lemma demo_started_running:
  "d_status (debate (run demo_cfg (\<lambda>a. []) Map.empty Map.empty demo_started)) = Running"
  "d_round (debate (run demo_cfg (\<lambda>a. []) Map.empty Map.empty demo_started)) = 1"
  by (simp_all add: demo_started_def demo_cfg_def demo_result_def demo_connect_def engine_defs)

lemma demo_paused:
  "d_status (debate (run demo_cfg (\<lambda>a. []) Map.empty Map.empty
                      (demo_started @ Pause # demo_round))) = Paused"
  by (simp add: demo_started_def demo_round_def demo_cfg_def demo_result_def demo_connect_def
      engine_defs)

theorem pause_at_round_end_witness:
  "d_status (debate (run demo_cfg (\<lambda>a. []) Map.empty Map.empty demo_started)) = Running
   \<and> list_all (\<lambda>e. \<not> is_start e \<and> \<not> is_resume e) demo_round
   \<and> d_status (debate (run demo_cfg (\<lambda>a. []) Map.empty Map.empty
                        (demo_started @ Pause # demo_round))) = Paused
   \<and> d_round (debate (run demo_cfg (\<lambda>a. []) Map.empty Map.empty
                        (demo_started @ Pause # demo_round))) = 1
   \<and> outstanding_turns (run demo_cfg (\<lambda>a. []) Map.empty Map.empty
                          (demo_started @ Pause # demo_round)) = 0
   \<and> last_turn (run demo_cfg (\<lambda>a. []) Map.empty Map.empty
                  (demo_started @ Pause # demo_round)) = Some (1, Gemini)"
proof -
  have h: "list_all (\<lambda>e. \<not> is_start e \<and> \<not> is_resume e) demo_round"
    by (simp add: demo_round_def)
  show ?thesis
    using pause_at_round_end [OF demo_started_running(1) h] demo_started_running demo_paused h
    by simp
qed

section \<open>Consensus and empty responses\<close>

lemma after_loop_reason:
  "d_reason (debate (after_loop st rsn s)) =
     Some (if \<not> stopRequested s \<and> d_maxRounds (debate s) \<le> d_round (debate s)
              \<and> rsn = ''completed''
           then ''max rounds reached'' else rsn)"
  by (simp add: after_loop_def)

lemma after_loop_emitted:
  "\<exists>ev. emitted (after_loop st rsn s) = emitted s @ [ev]"
  by (auto simp: after_loop_def loop_finally_def Let_def setDebateStatus_emitted
      updateSummary_def split: option.splits)

lemma loop_catch_emitted:
  "\<exists>ev. emitted (loop_catch msg s)
          = emitted s @ [ErrorEv ''RUN_LOOP_ERROR'' msg_loop_error msg, ev]"
  by (auto simp: loop_catch_def loop_finally_def Let_def setDebateStatus_emitted
      updateSummary_def split: option.splits)

lemma loop_finally_summary:
  assumes "run_ok s"
  shows "\<exists>sm. summaries (loop_finally st rsn s) (d_runId (debate s)) = Some sm
            \<and> r_status sm = st \<and> r_reason sm = Some rsn \<and> r_round sm = d_round (debate s)"
proof -
  obtain rn where rn: "currentRun s = Some rn" "r_runId rn = d_runId (debate s)"
    using assms by (auto simp: run_ok_def)
  obtain sm0 where sm0: "summaries s (d_runId (debate s)) = Some sm0"
    using assms by (auto simp: run_ok_def)
  show ?thesis using rn sm0
    by (simp add: loop_finally_def Let_def updateSummary_def)
qed

lemma run_ok_emit [simp]: "run_ok (emit ev s) = run_ok s"
  by (simp add: run_ok_def)

lemma loop_catch_summary:
  assumes "run_ok s"
  shows "\<exists>sm. summaries (loop_catch msg s) (d_runId (debate s)) = Some sm
            \<and> r_status sm = Stopped \<and> r_reason sm = Some msg"
  using loop_finally_summary [of "emit (ErrorEv ''RUN_LOOP_ERROR'' msg_loop_error msg) s" Stopped msg] assms
  by (auto simp: loop_catch_def)

lemma after_loop_summary:
  assumes "run_ok s"
  shows "\<exists>sm. summaries (after_loop st rsn s) (d_runId (debate s)) = Some sm
            \<and> r_status sm = st \<and> r_reason sm = d_reason (debate (after_loop st rsn s))
            \<and> r_round sm = d_round (debate s)"
  using loop_finally_summary [OF assms] by (simp add: after_loop_def)

text \<open>A turn that completes, and a turn that is the second empty one.\<close>

lemma invokeTurn_end_ok:
  assumes "summaries s rid \<noteq> None" "\<not> (blank (res_text x) \<and> 1 \<le> consecutiveEmptyResponses s)"
  shows "\<exists>s1. invokeTurn_end frm to r p rid (Resolved x) s = Inr (x, s1)
           \<and> consecutiveEmptyResponses s1
               = (if blank (res_text x) then consecutiveEmptyResponses s + 1 else 0)"
  using assms
  by (auto simp: invokeTurn_end_def Let_def blank_def updateSummary_def append_entry_def
      split: option.splits)

lemma invokeTurn_end_exhausted:
  assumes "blank (res_text x)" "1 \<le> consecutiveEmptyResponses s"
  shows "\<exists>s1. invokeTurn_end frm to r p rid (Resolved x) s = Inl (msg_empty_twice, s1)"
  using assms by (auto simp: invokeTurn_end_def Let_def blank_def)

lemma invokeTurn_end_count:
  assumes "invokeTurn_end frm to r p rid (Resolved x) s = Inr (y, s1)"
  shows "consecutiveEmptyResponses s1
           = (if blank (res_text x) then consecutiveEmptyResponses s + 1 else 0)
         \<and> (blank (res_text x) \<longrightarrow> consecutiveEmptyResponses s = 0)"
  using assms
  by (auto simp: invokeTurn_end_def Let_def blank_def updateSummary_def append_entry_def
      split: option.splits if_splits)

text \<open>What the continuations leave of the counter of empty responses.\<close>

lemma loop_iter_count:
  "consecutiveEmptyResponses (loop_iter r l s) = consecutiveEmptyResponses s"
  by (auto simp: loop_iter_def Let_def invokeTurn_begin_def)

lemma after_pause_count:
  "consecutiveEmptyResponses (after_pause r l s) = consecutiveEmptyResponses s"
  by (simp add: after_pause_def loop_iter_count)

lemma wake_count: "consecutiveEmptyResponses (wake t) = consecutiveEmptyResponses t"
  by (simp add: wake_def after_pause_count split: loop_point.splits)

lemma step_count:
  assumes "quiet ev"
  shows "consecutiveEmptyResponses (step cfg s ev) = consecutiveEmptyResponses s"
proof (cases ev)
  case (Connect a rs)
  then show ?thesis using perform_Connect [of cfg s a rs] by (simp add: step_def wake_count)
next
  case (ConnectDone a out)
  then show ?thesis using perform_ConnectDone [of cfg s a out] by (simp add: step_def wake_count)
next
  case Pause
  then show ?thesis using perform_Pause [of cfg s] by (simp add: step_def wake_count)
next
  case Resume
  then show ?thesis using perform_Resume [of cfg s] by (simp add: step_def wake_count)
next
  case Stop
  then show ?thesis using perform_Stop [of cfg s] by (simp add: step_def wake_count)
qed (use assms in \<open>auto simp: quiet_def\<close>)

lemma exec_count:
  "list_all quiet evs \<Longrightarrow>
   consecutiveEmptyResponses (exec cfg s evs) = consecutiveEmptyResponses s"
  by (induction evs arbitrary: s) (simp_all add: exec_def step_count)

text \<open>Without a start no loop begins.\<close>

lemma perform_ended:
  assumes "loop s = NoLoop" "\<not> is_start ev"
  shows "loop (perform cfg s ev) = NoLoop \<and> turn_calls (perform cfg s ev) = turn_calls s"
proof (cases ev)
  case (Connect a rs)
  then show ?thesis using perform_Connect [of cfg s a rs] assms by simp
next
  case (ConnectDone a out)
  then show ?thesis using perform_ConnectDone [of cfg s a out] assms by simp
next
  case Pause
  then show ?thesis using perform_Pause [of cfg s] assms by simp
next
  case Resume
  then show ?thesis using perform_Resume [of cfg s] assms by simp
next
  case Stop
  then show ?thesis using perform_Stop [of cfg s] assms by simp
next
  case (TurnDone out)
  then show ?thesis using assms by (simp add: perform_def)
qed (use assms in auto)

lemma step_ended:
  assumes "loop s = NoLoop" "\<not> is_start ev"
  shows "loop (step cfg s ev) = NoLoop \<and> turn_calls (step cfg s ev) = turn_calls s"
proof -
  have "wake (perform cfg s ev) = perform cfg s ev"
    using perform_ended [OF assms, of cfg] by (intro wake_unless_resolved) simp
  then show ?thesis using perform_ended [OF assms, of cfg] by (simp add: step_def)
qed

lemma exec_ended:
  "loop s = NoLoop \<Longrightarrow> list_all (\<lambda>e. \<not> is_start e) evs \<Longrightarrow>
   loop (exec cfg s evs) = NoLoop \<and> turn_calls (exec cfg s evs) = turn_calls s"
proof (induction evs arbitrary: s)
  case Nil
  then show ?case by (simp add: exec_def)
next
  case (Cons ev evs)
  then show ?case using step_ended [of s ev cfg] by (simp add: exec_def)
qed

text \<open>While a turn is in flight, only its settlement moves the loop.\<close>

lemma step_in_turn:
  assumes "awaits_turn s" "quiet ev"
  shows "loop (step cfg s ev) = loop s"
proof -
  have l: "loop (perform cfg s ev) = loop s"
  proof (cases ev)
    case (Connect a rs)
    then show ?thesis using perform_Connect [of cfg s a rs] by simp
  next
    case (ConnectDone a out)
    then show ?thesis using perform_ConnectDone [of cfg s a out] by simp
  next
    case Pause
    then show ?thesis using perform_Pause [of cfg s] by simp
  next
    case Resume
    then show ?thesis using perform_Resume [of cfg s] by simp
  next
    case Stop
    then show ?thesis using perform_Stop [of cfg s] by simp
  qed (use assms in \<open>auto simp: quiet_def\<close>)
  have n: "loop s \<noteq> AwaitPause r l'" for r l'
    using assms(1) by (auto simp: awaits_turn_def)
  have "wake (perform cfg s ev) = perform cfg s ev"
    using l n by (intro wake_unless_resolved) metis
  then show ?thesis using l by (simp add: step_def)
qed

lemma exec_in_turn:
  "awaits_turn s \<Longrightarrow> list_all quiet evs \<Longrightarrow> loop (exec cfg s evs) = loop s"
proof (induction evs arbitrary: s)
  case Nil
  then show ?case by (simp add: exec_def)
next
  case (Cons ev evs)
  have "loop (step cfg s ev) = loop s" using Cons.prems step_in_turn by simp
  moreover from this have "awaits_turn (step cfg s ev)"
    using Cons.prems(1) by (simp add: awaits_turn_def)
  ultimately show ?case using Cons by (simp add: exec_def)
qed

lemma codex_done_result:
  assumes "loop (codex_done r rid p (Resolved c) s) = AwaitGemini r' rid' p' c'"
  shows "r' = r \<and> c' = c \<and> p' = gemini_prompt (d_topic (debate s)) r (res_text c)
         \<and> consecutiveEmptyResponses (codex_done r rid p (Resolved c) s)
             = (if blank (res_text c) then 1 else 0)"
proof (cases "invokeTurn_end Codex Gemini r p rid (Resolved c) s")
  case (Inl e)
  then show ?thesis using assms by (cases e) (simp add: codex_done_def)
next
  case (Inr e)
  obtain y s1 where e: "e = (y, s1)" by (cases e)
  note f = invokeTurn_end_Inr [OF Inr [unfolded e]] invokeTurn_end_count [OF Inr [unfolded e]]
  show ?thesis using assms Inr e f
    by (auto simp: codex_done_def Let_def invokeTurn_begin_def split: if_splits)
qed

lemma run_ok_pending [simp]: "run_ok (s\<lparr>pending := x\<rparr>) = run_ok s"
  by (simp add: run_ok_def)

lemma run_ok_after_turn:
  assumes "invokeTurn_end frm to r p rid out s = Inr (y, s1)" "run_ok s"
  shows "run_ok s1"
  using invokeTurn_end_Inr [OF assms(1)] assms(2) by (auto simp: run_ok_def)

lemma gemini_consensus_step:
  assumes "inv s" "loop s = AwaitGemini r rid p c" "\<not> stopRequested s"
    "\<not> (blank (res_text g) \<and> 1 \<le> consecutiveEmptyResponses s)"
    "consensusRegex cfg (res_text c) \<or> consensusRegex cfg (res_text g)"
  shows "d_status (debate (step cfg s (TurnDone (Resolved g)))) = Completed
    \<and> d_reason (debate (step cfg s (TurnDone (Resolved g)))) = Some ''consensus detected''
    \<and> d_round (debate (step cfg s (TurnDone (Resolved g)))) = r
    \<and> loop (step cfg s (TurnDone (Resolved g))) = NoLoop
    \<and> turn_calls (step cfg s (TurnDone (Resolved g))) = turn_calls s
    \<and> (\<exists>sm. summaries (step cfg s (TurnDone (Resolved g)))
                (d_runId (debate (step cfg s (TurnDone (Resolved g))))) = Some sm
             \<and> r_status sm = Completed \<and> r_reason sm = Some ''consensus detected''
             \<and> r_round sm = r)"
proof -
  let ?s' = "s\<lparr>pending := remove_first is_turn (pending s)\<rparr>"
  have ok: "run_ok s" "rid = d_runId (debate s)" "d_round (debate s) = r"
    using assms(1,2) by (simp_all add: inv_def inv_core_def)
  then have sm: "summaries ?s' rid \<noteq> None" by (simp add: run_ok_def)
  have ne: "\<not> (blank (res_text g) \<and> 1 \<le> consecutiveEmptyResponses ?s')"
    using assms(4) by simp
  from invokeTurn_end_ok [OF sm ne, of Gemini Codex r p] obtain s1 where
    e: "invokeTurn_end Gemini Codex r p rid (Resolved g) ?s' = Inr (g, s1)" by blast
  note f = invokeTurn_end_Inr [OF e]
  have ok1: "run_ok s1" using run_ok_after_turn [OF e] ok(1) by simp
  let ?t = "after_loop Completed ''consensus detected'' s1"
  have t: "perform cfg s (TurnDone (Resolved g)) = ?t"
    using assms(2,3,5) e f by (simp add: perform_def gemini_done_def)
  have w: "wake ?t = ?t" by (intro wake_unless_resolved) simp
  have st: "step cfg s (TurnDone (Resolved g)) = settle ?t" by (simp add: step_def t w)
  have tc: "turn_calls ?t = turn_calls s" using f by (simp add: turn_calls_def)
  from after_loop_summary [OF ok1, of Completed "''consensus detected''"]
  obtain sm' where sm': "summaries ?t (d_runId (debate s1)) = Some sm'" "r_status sm' = Completed"
    "r_reason sm' = d_reason (debate ?t)" "r_round sm' = d_round (debate s1)" by blast
  show ?thesis unfolding st using f ok tc sm'
    by (simp add: after_loop_reason)
qed

text \<open>
  C3, as amended. Let the turn of Codex in round \<open>r\<close> be in flight in a reached state
  and settle with a result, and let the turn of Gemini of that round, in flight after
  events that are neither a settlement of a turn nor a start, settle with a result as
  well, the two responses not both blank and no stop requested by then. If one of the two
  responses matches the consensus pattern, the run ends with status completed, reason
  "consensus detected" and round \<open>r\<close>, also in its summary; the turn of Gemini in round
  \<open>r\<close> is the last turn issued, and whatever events follow, a new start apart, no
  further turn is issued.
\<close>

theorem consensus_ends_run:
  assumes "loop (run cfg persisted sums lgs evs) = AwaitCodex r rid p"
    "list_all quiet mid"
    "awaits_turn (run cfg persisted sums lgs (evs @ TurnDone (Resolved c) # mid))"
    "\<not> stopRequested (run cfg persisted sums lgs (evs @ TurnDone (Resolved c) # mid))"
    "\<not> (blank (res_text c) \<and> blank (res_text g))"
    "consensusRegex cfg (res_text c) \<or> consensusRegex cfg (res_text g)"
    "list_all (\<lambda>e. \<not> is_start e) later"
  shows "d_status (debate (run cfg persisted sums lgs
            (evs @ TurnDone (Resolved c) # mid @ [TurnDone (Resolved g)]))) = Completed
    \<and> d_reason (debate (run cfg persisted sums lgs
            (evs @ TurnDone (Resolved c) # mid @ [TurnDone (Resolved g)])))
        = Some ''consensus detected''
    \<and> d_round (debate (run cfg persisted sums lgs
            (evs @ TurnDone (Resolved c) # mid @ [TurnDone (Resolved g)]))) = r
    \<and> loop (run cfg persisted sums lgs
            (evs @ TurnDone (Resolved c) # mid @ [TurnDone (Resolved g)])) = NoLoop
    \<and> last_turn (run cfg persisted sums lgs
            (evs @ TurnDone (Resolved c) # mid @ [TurnDone (Resolved g)])) = Some (r, Gemini)
    \<and> turn_calls (run cfg persisted sums lgs
            (evs @ TurnDone (Resolved c) # mid @ [TurnDone (Resolved g)] @ later))
        = turn_calls (run cfg persisted sums lgs (evs @ TurnDone (Resolved c) # mid))
    \<and> (\<exists>sm. summaries (run cfg persisted sums lgs
                 (evs @ TurnDone (Resolved c) # mid @ [TurnDone (Resolved g)]))
               (d_runId (debate (run cfg persisted sums lgs
                 (evs @ TurnDone (Resolved c) # mid @ [TurnDone (Resolved g)])))) = Some sm
             \<and> r_status sm = Completed \<and> r_reason sm = Some ''consensus detected''
             \<and> r_round sm = r)"
proof -
  let ?s = "run cfg persisted sums lgs evs"
  let ?s1 = "step cfg ?s (TurnDone (Resolved c))"
  let ?s2 = "run cfg persisted sums lgs (evs @ TurnDone (Resolved c) # mid)"
  let ?s3 = "run cfg persisted sums lgs (evs @ TurnDone (Resolved c) # mid @ [TurnDone (Resolved g)])"
  have s2: "?s2 = exec cfg ?s1 mid" by (simp add: run_def exec_append exec_Cons)
  have s3: "?s3 = step cfg ?s2 (TurnDone (Resolved g))"
    by (simp add: run_def exec_def)
  have s4: "run cfg persisted sums lgs
              (evs @ TurnDone (Resolved c) # mid @ [TurnDone (Resolved g)] @ later)
            = exec cfg ?s3 later"
    by (simp add: run_def exec_def)
  let ?p = "codex_done r rid p (Resolved c) (?s\<lparr>pending := remove_first is_turn (pending ?s)\<rparr>)"
  have p1: "perform cfg ?s (TurnDone (Resolved c)) = ?p"
    using assms(1) by (simp add: perform_def)
  have nostart: "list_all (\<lambda>e. \<not> is_start e) mid"
    using assms(2) by (simp add: list_all_iff quiet_def)
  have l1: "loop ?s1 \<noteq> NoLoop"
  proof
    assume "loop ?s1 = NoLoop"
    from exec_ended [OF this nostart, of cfg] show False
      using assms(3) by (simp add: s2 awaits_turn_def)
  qed
  have lp: "\<exists>rid' p' c'. loop ?p = AwaitGemini r rid' p' c'"
  proof -
    have "loop ?p \<noteq> NoLoop"
    proof
      assume n: "loop ?p = NoLoop"
      then have "wake ?p = ?p" by (intro wake_unless_resolved) simp
      then show False using l1 n by (simp add: step_def p1)
    qed
    then show ?thesis using codex_done_shape [of r rid p "Resolved c"] by blast
  qed
  then obtain rid' p' c' where lp': "loop ?p = AwaitGemini r rid' p' c'" by blast
  have w: "wake ?p = ?p" using lp' by (intro wake_unless_resolved) simp
  have st1: "?s1 = settle ?p" by (simp add: step_def p1 w)
  note cr = codex_done_result [OF lp']
  have a1: "awaits_turn ?s1" using lp' by (simp add: st1 awaits_turn_def)
  have l2: "loop ?s2 = AwaitGemini r rid' p' c"
    using exec_in_turn [OF a1 assms(2), of cfg] lp' cr by (simp add: s2 st1)
  have c2: "consecutiveEmptyResponses ?s2 = (if blank (res_text c) then 1 else 0)"
    using exec_count [OF assms(2), of cfg ?s1] cr by (simp add: s2 st1)
  have ne: "\<not> (blank (res_text g) \<and> 1 \<le> consecutiveEmptyResponses ?s2)"
    using assms(5) c2 by auto
  note fin = gemini_consensus_step [OF run_inv l2 assms(4) ne assms(6)]
  have "last_turn ?s2 = Some (r, Gemini)"
    using run_calls [of cfg persisted sums lgs "evs @ TurnDone (Resolved c) # mid"] l2
    by (simp add: inv_calls_def)
  moreover have "last_turn ?s3 = last_turn ?s2"
    using fin by (simp add: s3 last_turn_def)
  ultimately have lt: "last_turn ?s3 = Some (r, Gemini)" by simp
  have "loop ?s3 = NoLoop" using fin by (simp add: s3)
  from exec_ended [OF this assms(7), of cfg]
  have later: "turn_calls (exec cfg ?s3 later) = turn_calls ?s2" using fin by (simp add: s3)
  show ?thesis using fin lt later unfolding s4 s3 [symmetric] by simp
qed

theorem consensus_ends_run_witness:
  "loop (run demo_cfg (\<lambda>a. []) Map.empty Map.empty demo_started)
     = AwaitCodex 1 ''run_s_x'' (opening_prompt ''topic'')
   \<and> list_all quiet [Pause]
   \<and> awaits_turn (run demo_cfg (\<lambda>a. []) Map.empty Map.empty
                    (demo_started @ TurnDone (Resolved (demo_result ''one'' ''c-1'')) # [Pause]))
   \<and> \<not> stopRequested (run demo_cfg (\<lambda>a. []) Map.empty Map.empty
                    (demo_started @ TurnDone (Resolved (demo_result ''one'' ''c-1'')) # [Pause]))
   \<and> consensusRegex demo_cfg (res_text (demo_result ''agreed'' ''g-1''))
   \<and> d_status (debate (run demo_cfg (\<lambda>a. []) Map.empty Map.empty
        (demo_started @ TurnDone (Resolved (demo_result ''one'' ''c-1'')) # [Pause]
           @ [TurnDone (Resolved (demo_result ''agreed'' ''g-1''))]))) = Completed
   \<and> d_round (debate (run demo_cfg (\<lambda>a. []) Map.empty Map.empty
        (demo_started @ TurnDone (Resolved (demo_result ''one'' ''c-1'')) # [Pause]
           @ [TurnDone (Resolved (demo_result ''agreed'' ''g-1''))]))) = 1
   \<and> d_reason (debate (run demo_cfg (\<lambda>a. []) Map.empty Map.empty
        (demo_started @ TurnDone (Resolved (demo_result ''one'' ''c-1'')) # [Pause]
           @ [TurnDone (Resolved (demo_result ''agreed'' ''g-1''))])))
       = Some ''consensus detected''"
proof -
  have h1: "loop (run demo_cfg (\<lambda>a. []) Map.empty Map.empty demo_started)
     = AwaitCodex 1 ''run_s_x'' (opening_prompt ''topic'')"
    by (simp add: demo_defs engine_defs)
  have h2: "list_all quiet [Pause]" by (simp add: quiet_def)
  have h3: "awaits_turn (run demo_cfg (\<lambda>a. []) Map.empty Map.empty
                    (demo_started @ TurnDone (Resolved (demo_result ''one'' ''c-1'')) # [Pause]))"
    and h4: "\<not> stopRequested (run demo_cfg (\<lambda>a. []) Map.empty Map.empty
                    (demo_started @ TurnDone (Resolved (demo_result ''one'' ''c-1'')) # [Pause]))"
    by (simp_all add: demo_defs engine_defs awaits_turn_def)
  have h5: "\<not> (blank (res_text (demo_result ''one'' ''c-1''))
               \<and> blank (res_text (demo_result ''agreed'' ''g-1'')))"
    by (simp add: demo_defs blank_def js_trim_def is_ws_def)
  have h6: "consensusRegex demo_cfg (res_text (demo_result ''one'' ''c-1''))
            \<or> consensusRegex demo_cfg (res_text (demo_result ''agreed'' ''g-1''))"
    by (simp add: demo_defs)
  have h7: "list_all (\<lambda>e. \<not> is_start e) []" by simp
  show ?thesis
    using consensus_ends_run [OF h1 h2 h3 h4 h5 h6 h7] h1 h2 h3 h4
    by (simp add: demo_cfg_def demo_result_def)
qed

text \<open>
  C3 as stated fails: after a response of Codex that matches the consensus pattern, the
  turn of Gemini is still issued, and when its call is rejected, or a stop is requested
  before it settles, the run ends with status stopped. So it does when the pattern
  matches blank text and both responses of the round are blank: the second empty
  response ends the run before the consensus test.
\<close>

theorem consensus_counterexample:
  "consensusRegex demo_cfg (res_text (demo_result ''agreed'' ''c-1''))
   \<and> d_status (debate (run demo_cfg (\<lambda>a. []) Map.empty Map.empty
        (demo_started @ [TurnDone (Resolved (demo_result ''agreed'' ''c-1'')),
                         TurnDone (Rejected ''gemini command timeout (2000ms)'')]))) = Stopped
   \<and> d_reason (debate (run demo_cfg (\<lambda>a. []) Map.empty Map.empty
        (demo_started @ [TurnDone (Resolved (demo_result ''agreed'' ''c-1'')),
                         TurnDone (Rejected ''gemini command timeout (2000ms)'')])))
       = Some ''gemini command timeout (2000ms)''
   \<and> d_status (debate (run demo_cfg (\<lambda>a. []) Map.empty Map.empty
        (demo_started @ [TurnDone (Resolved (demo_result ''agreed'' ''c-1'')), Stop,
                         TurnDone (Resolved (demo_result ''two'' ''g-1''))]))) = Stopped
   \<and> d_reason (debate (run demo_cfg (\<lambda>a. []) Map.empty Map.empty
        (demo_started @ [TurnDone (Resolved (demo_result ''agreed'' ''c-1'')), Stop,
                         TurnDone (Resolved (demo_result ''two'' ''g-1''))])))
       = Some ''manual stop''
   \<and> consensusRegex demo_any_cfg (res_text (demo_result '' '' ''c-1''))
   \<and> consensusRegex demo_any_cfg (res_text (demo_result [] ''g-1''))
   \<and> d_status (debate (run demo_any_cfg (\<lambda>a. []) Map.empty Map.empty
        (demo_started @ [TurnDone (Resolved (demo_result '' '' ''c-1'')),
                         TurnDone (Resolved (demo_result [] ''g-1''))]))) = Stopped
   \<and> d_reason (debate (run demo_any_cfg (\<lambda>a. []) Map.empty Map.empty
        (demo_started @ [TurnDone (Resolved (demo_result '' '' ''c-1'')),
                         TurnDone (Resolved (demo_result [] ''g-1''))])))
       = Some msg_empty_twice
   \<and> map (\<lambda>i. (inv_agent i, inv_round i))
        (calls (run demo_any_cfg (\<lambda>a. []) Map.empty Map.empty
        (demo_started @ [TurnDone (Resolved (demo_result '' '' ''c-1'')),
                         TurnDone (Resolved (demo_result [] ''g-1''))])))
       = [(Codex, None), (Gemini, None), (Codex, Some 1), (Gemini, Some 1)]"
  by (simp add: demo_any_cfg_def demo_defs engine_defs)

lemma invokeTurn_end_Inl_emitted:
  assumes "invokeTurn_end frm to r p rid out s = Inl (msg, s1)"
  shows "\<exists>pre. emitted s1 = emitted s @ pre"
  using assms
  by (auto simp: invokeTurn_end_def Let_def updateSummary_def append_entry_def
      setAgentStatus_def emit_def upsert_def
      split: outcome.splits if_splits option.splits)

lemma codex_done_count:
  "consecutiveEmptyResponses (codex_done r rid p out s)
     = (case invokeTurn_end Codex Gemini r p rid out s of
          Inl (msg, s1) \<Rightarrow> consecutiveEmptyResponses s1
        | Inr (y, s1) \<Rightarrow> consecutiveEmptyResponses s1)"
  by (auto simp: codex_done_def Let_def invokeTurn_begin_def split: sum.splits prod.splits)

lemma gemini_done_count:
  "consecutiveEmptyResponses (gemini_done cfg r rid p c out s)
     = (case invokeTurn_end Gemini Codex r p rid out s of
          Inl (msg, s1) \<Rightarrow> consecutiveEmptyResponses s1
        | Inr (y, s1) \<Rightarrow> consecutiveEmptyResponses s1)"
  by (auto simp: gemini_done_def Let_def waitUntilResumedOrStopped_def after_pause_count
      loop_iter_count split: sum.splits prod.splits)

lemma invokeTurn_end_count_any:
  "(case invokeTurn_end frm to r p rid (Resolved x) s of
      Inl (msg, s1) \<Rightarrow> consecutiveEmptyResponses s1
    | Inr (y, s1) \<Rightarrow> consecutiveEmptyResponses s1)
   = (if blank (res_text x) then consecutiveEmptyResponses s + 1 else 0)"
  by (auto simp: invokeTurn_end_def Let_def blank_def updateSummary_def append_entry_def
      split: option.splits)

lemma turn_count:
  assumes "awaits_turn s"
  shows "consecutiveEmptyResponses (step cfg s (TurnDone (Resolved x)))
           = (if blank (res_text x) then consecutiveEmptyResponses s + 1 else 0)"
proof -
  have "consecutiveEmptyResponses (perform cfg s (TurnDone (Resolved x)))
           = (if blank (res_text x) then consecutiveEmptyResponses s + 1 else 0)"
  proof (cases "loop s")
    case (AwaitCodex r rid p)
    then show ?thesis
      using invokeTurn_end_count_any [of Codex Gemini r p rid x "s\<lparr>pending := remove_first is_turn (pending s)\<rparr>"]
      by (simp add: perform_def codex_done_count)
  next
    case (AwaitGemini r rid p c)
    then show ?thesis
      using invokeTurn_end_count_any [of Gemini Codex r p rid x "s\<lparr>pending := remove_first is_turn (pending s)\<rparr>"]
      by (simp add: perform_def gemini_done_count)
  qed (use assms in \<open>simp_all add: awaits_turn_def\<close>)
  then show ?thesis by (simp add: step_def wake_count)
qed

lemma exhausted_step:
  assumes "inv s" "awaits_turn s" "blank (res_text b)" "1 \<le> consecutiveEmptyResponses s"
  shows "d_status (debate (step cfg s (TurnDone (Resolved b)))) = Stopped
    \<and> d_reason (debate (step cfg s (TurnDone (Resolved b)))) = Some msg_empty_twice
    \<and> loop (step cfg s (TurnDone (Resolved b))) = NoLoop
    \<and> (\<exists>pre ev. emitted (step cfg s (TurnDone (Resolved b)))
          = emitted s @ pre @ [ErrorEv ''RUN_LOOP_ERROR'' msg_loop_error msg_empty_twice, ev])
    \<and> (\<exists>sm. summaries (step cfg s (TurnDone (Resolved b)))
                (d_runId (debate (step cfg s (TurnDone (Resolved b))))) = Some sm
             \<and> r_status sm = Stopped \<and> r_reason sm = Some msg_empty_twice)"
proof -
  let ?s' = "s\<lparr>pending := remove_first is_turn (pending s)\<rparr>"
  have ok: "run_ok s" using assms(1,2)
    by (auto simp: inv_def inv_core_def awaits_turn_def split: loop_point.splits)
  have c: "1 \<le> consecutiveEmptyResponses ?s'" using assms(4) by simp
  have "\<exists>s1. perform cfg s (TurnDone (Resolved b)) = loop_catch msg_empty_twice s1
             \<and> run_ok s1 \<and> debate s1 = debate s \<and> (\<exists>pre. emitted s1 = emitted s @ pre)"
  proof (cases "loop s")
    case (AwaitCodex r rid p)
    from invokeTurn_end_exhausted [OF assms(3) c, of Codex Gemini r p rid] obtain s1 where
      e: "invokeTurn_end Codex Gemini r p rid (Resolved b) ?s' = Inl (msg_empty_twice, s1)"
      by blast
    show ?thesis
      using AwaitCodex e invokeTurn_end_Inl [OF e] invokeTurn_end_Inl_emitted [OF e] ok
      by (auto simp: perform_def codex_done_def run_ok_def)
  next
    case (AwaitGemini r rid p cx)
    from invokeTurn_end_exhausted [OF assms(3) c, of Gemini Codex r p rid] obtain s1 where
      e: "invokeTurn_end Gemini Codex r p rid (Resolved b) ?s' = Inl (msg_empty_twice, s1)"
      by blast
    show ?thesis
      using AwaitGemini e invokeTurn_end_Inl [OF e] invokeTurn_end_Inl_emitted [OF e] ok
      by (auto simp: perform_def gemini_done_def run_ok_def)
  qed (use assms(2) in \<open>simp_all add: awaits_turn_def\<close>)
  then obtain s1 pre where p: "perform cfg s (TurnDone (Resolved b)) = loop_catch msg_empty_twice s1"
    "run_ok s1" "debate s1 = debate s" "emitted s1 = emitted s @ pre" by blast
  have w: "wake (loop_catch msg_empty_twice s1) = loop_catch msg_empty_twice s1"
    by (intro wake_unless_resolved) simp
  have st: "step cfg s (TurnDone (Resolved b)) = settle (loop_catch msg_empty_twice s1)"
    by (simp add: step_def p(1) w)
  from loop_catch_emitted [of msg_empty_twice s1] obtain ev where
    em: "emitted (loop_catch msg_empty_twice s1)
           = emitted s1 @ [ErrorEv ''RUN_LOOP_ERROR'' msg_loop_error msg_empty_twice, ev]"
    by blast
  from loop_catch_summary [OF p(2), of msg_empty_twice] obtain sm where
    sm: "summaries (loop_catch msg_empty_twice s1) (d_runId (debate s1)) = Some sm"
      "r_status sm = Stopped" "r_reason sm = Some msg_empty_twice" by blast
  show ?thesis unfolding st using em sm p(3,4) by simp
qed

text \<open>
  C7. Let a turn be in flight in a reached state and settle with a result, and let a
  second turn, of either agent, be in flight after events that are neither a settlement
  of a turn nor a start. If the response of the first is blank and the second settles with
  a blank response as well, the run ends with status stopped and the message of the failure
  as its reason, also in its summary, and an error event with that message is given to
  \<open>emit\<close>. If the response of the first is not blank, the count of empty responses is
  zero again, and a blank response of the second only makes it one.
\<close>

theorem two_empty_responses_abort:
  assumes "awaits_turn (run cfg persisted sums lgs evs)"
    "list_all quiet mid"
    "awaits_turn (run cfg persisted sums lgs (evs @ TurnDone (Resolved a) # mid))"
  shows "(blank (res_text a) \<and> blank (res_text b) \<longrightarrow>
      d_status (debate (run cfg persisted sums lgs
          (evs @ TurnDone (Resolved a) # mid @ [TurnDone (Resolved b)]))) = Stopped
      \<and> d_reason (debate (run cfg persisted sums lgs
          (evs @ TurnDone (Resolved a) # mid @ [TurnDone (Resolved b)]))) = Some msg_empty_twice
      \<and> loop (run cfg persisted sums lgs
          (evs @ TurnDone (Resolved a) # mid @ [TurnDone (Resolved b)])) = NoLoop
      \<and> (\<exists>pre ev. emitted (run cfg persisted sums lgs
                      (evs @ TurnDone (Resolved a) # mid @ [TurnDone (Resolved b)]))
            = emitted (run cfg persisted sums lgs (evs @ TurnDone (Resolved a) # mid)) @ pre
                @ [ErrorEv ''RUN_LOOP_ERROR'' msg_loop_error msg_empty_twice, ev])
      \<and> (\<exists>sm. summaries (run cfg persisted sums lgs
                   (evs @ TurnDone (Resolved a) # mid @ [TurnDone (Resolved b)]))
                 (d_runId (debate (run cfg persisted sums lgs
                   (evs @ TurnDone (Resolved a) # mid @ [TurnDone (Resolved b)])))) = Some sm
               \<and> r_status sm = Stopped \<and> r_reason sm = Some msg_empty_twice))
    \<and> (\<not> blank (res_text a) \<longrightarrow>
         consecutiveEmptyResponses (run cfg persisted sums lgs (evs @ TurnDone (Resolved a) # mid))
           = 0
         \<and> consecutiveEmptyResponses (run cfg persisted sums lgs
             (evs @ TurnDone (Resolved a) # mid @ [TurnDone (Resolved b)]))
           = (if blank (res_text b) then 1 else 0))"
proof -
  let ?s = "run cfg persisted sums lgs evs"
  let ?s2 = "run cfg persisted sums lgs (evs @ TurnDone (Resolved a) # mid)"
  let ?s3 = "run cfg persisted sums lgs (evs @ TurnDone (Resolved a) # mid @ [TurnDone (Resolved b)])"
  have s2: "?s2 = exec cfg (step cfg ?s (TurnDone (Resolved a))) mid"
    by (simp add: run_def exec_append exec_Cons)
  have s3: "?s3 = step cfg ?s2 (TurnDone (Resolved b))" by (simp add: run_def exec_def)
  have c2: "consecutiveEmptyResponses ?s2
              = (if blank (res_text a) then consecutiveEmptyResponses ?s + 1 else 0)"
    using exec_count [OF assms(2), of cfg] turn_count [OF assms(1), of cfg a] by (simp add: s2)
  have c3: "consecutiveEmptyResponses ?s3
              = (if blank (res_text b) then consecutiveEmptyResponses ?s2 + 1 else 0)"
    using turn_count [OF assms(3), of cfg b] by (simp add: s3)
  have one: "blank (res_text a) \<and> blank (res_text b) \<longrightarrow>
      d_status (debate ?s3) = Stopped \<and> d_reason (debate ?s3) = Some msg_empty_twice
      \<and> loop ?s3 = NoLoop
      \<and> (\<exists>pre ev. emitted ?s3 = emitted ?s2 @ pre
                @ [ErrorEv ''RUN_LOOP_ERROR'' msg_loop_error msg_empty_twice, ev])
      \<and> (\<exists>sm. summaries ?s3 (d_runId (debate ?s3)) = Some sm
               \<and> r_status sm = Stopped \<and> r_reason sm = Some msg_empty_twice)"
  proof
    assume b: "blank (res_text a) \<and> blank (res_text b)"
    then have "1 \<le> consecutiveEmptyResponses ?s2" using c2 by simp
    from exhausted_step [OF run_inv assms(3) _ this, of b cfg] b
    show "d_status (debate ?s3) = Stopped \<and> d_reason (debate ?s3) = Some msg_empty_twice
      \<and> loop ?s3 = NoLoop
      \<and> (\<exists>pre ev. emitted ?s3 = emitted ?s2 @ pre
                @ [ErrorEv ''RUN_LOOP_ERROR'' msg_loop_error msg_empty_twice, ev])
      \<and> (\<exists>sm. summaries ?s3 (d_runId (debate ?s3)) = Some sm
               \<and> r_status sm = Stopped \<and> r_reason sm = Some msg_empty_twice)"
      unfolding s3 by simp
  qed
  show ?thesis using one c2 c3 by simp
qed

theorem two_empty_responses_abort_witness:
  "awaits_turn (run demo_cfg (\<lambda>a. []) Map.empty Map.empty demo_started)
   \<and> list_all quiet [Pause]
   \<and> awaits_turn (run demo_cfg (\<lambda>a. []) Map.empty Map.empty
        (demo_started @ TurnDone (Resolved (demo_result ''  '' ''c-1'')) # [Pause]))
   \<and> blank (res_text (demo_result ''  '' ''c-1'')) \<and> blank (res_text (demo_result [] ''g-1''))
   \<and> d_status (debate (run demo_cfg (\<lambda>a. []) Map.empty Map.empty
        (demo_started @ TurnDone (Resolved (demo_result ''  '' ''c-1'')) # [Pause]
          @ [TurnDone (Resolved (demo_result [] ''g-1''))]))) = Stopped
   \<and> d_reason (debate (run demo_cfg (\<lambda>a. []) Map.empty Map.empty
        (demo_started @ TurnDone (Resolved (demo_result ''  '' ''c-1'')) # [Pause]
          @ [TurnDone (Resolved (demo_result [] ''g-1''))]))) = Some msg_empty_twice"
proof -
  have h1: "awaits_turn (run demo_cfg (\<lambda>a. []) Map.empty Map.empty demo_started)"
    by (simp add: demo_defs engine_defs awaits_turn_def)
  have h2: "list_all quiet [Pause]" by (simp add: quiet_def)
  have h3: "awaits_turn (run demo_cfg (\<lambda>a. []) Map.empty Map.empty
        (demo_started @ TurnDone (Resolved (demo_result ''  '' ''c-1'')) # [Pause]))"
    by (simp add: demo_defs engine_defs awaits_turn_def)
  have h4: "blank (res_text (demo_result ''  '' ''c-1''))" "blank (res_text (demo_result [] ''g-1''))"
    by (simp_all add: demo_defs blank_def js_trim_def is_ws_def)
  show ?thesis
    using two_empty_responses_abort [OF h1 h2 h3, of "demo_result [] ''g-1''"] h1 h2 h3 h4
    by simp
qed

section \<open>Forwarded context, reconnection and session ids\<close>

lemma js_trim_replicate: "\<not> is_ws c \<Longrightarrow> js_trim (replicate n c) = replicate n c"
proof (cases n)
  case 0
  then show ?thesis by (simp add: js_trim_def)
next
  case (Suc m)
  assume c: "\<not> is_ws c"
  have "dropWhile is_ws (replicate n c) = replicate n c" using c Suc by simp
  moreover have "rev (replicate n c) = replicate n c" by simp
  ultimately show ?thesis by (simp add: js_trim_def)
qed

lemma trim_long [simp]:
  "js_trim (replicate 180 (CHR ''c'')) = replicate 180 (CHR ''c'')"
  "js_trim (replicate 180 (CHR ''g'')) = replicate 180 (CHR ''g'')"
  by (simp_all add: js_trim_replicate is_ws_def)

text \<open>
  C1, on the code. The run of the test of the repository for the trimmed context: a text
  limit of 100 is asked for (the engine takes no such argument, and the summary of the run
  has no text limit), the first response of Codex and the first response of Gemini are 180
  characters long. Both are logged with their 180 characters, and the prompt of the next
  turn holds all 180 characters of the response before it: the prompt sent to Gemini in
  round 1 those of Codex, the prompt sent to Codex in round 2 those of Gemini.
\<close>

theorem context_not_trimmed:
  "map (\<lambda>e. length (e_response e))
       (the (logs (run demo_cfg (\<lambda>a. []) Map.empty Map.empty demo_limit_run) ''run_s_x''))
     = [180, 180]
   \<and> map inv_prompt (filter is_turn (calls (run demo_cfg (\<lambda>a. []) Map.empty Map.empty demo_limit_run)))
     = [opening_prompt ''limit'',
        gemini_prompt ''limit'' 1 (replicate 180 (CHR ''c'')),
        codex_prompt ''limit'' 2 (replicate 180 (CHR ''g''))]
   \<and> gemini_prompt ''limit'' 1 (replicate 180 (CHR ''c''))
     = ''Debate topic: limit'' @ [CHR 0x0A] @ ''Debate round: 1'' @ [CHR 0x0A]
       @ ''Latest opinion of the other side (Codex):'' @ [CHR 0x0A]
       @ replicate 180 (CHR ''c'') @ [CHR 0x0A]
       @ ''Give rebuttal or acceptance of the opinion of the other side, and an improvement.''
   \<and> codex_prompt ''limit'' 2 (replicate 180 (CHR ''g''))
     = ''Debate topic: limit'' @ [CHR 0x0A] @ ''Debate round: 2'' @ [CHR 0x0A]
       @ ''Latest opinion of the other side (Gemini):'' @ [CHR 0x0A]
       @ replicate 180 (CHR ''g'') @ [CHR 0x0A]
       @ ''Answer the opinion of the other side, split into rebuttal and acceptance.''
   \<and> map_option r_textLimit
        (summaries (run demo_cfg (\<lambda>a. []) Map.empty Map.empty demo_limit_run) ''run_s_x'')
     = Some None"
proof -
  have p: "gemini_prompt ''limit'' 1 (replicate 180 (CHR ''c''))
     = ''Debate topic: limit'' @ [CHR 0x0A] @ ''Debate round: 1'' @ [CHR 0x0A]
       @ ''Latest opinion of the other side (Codex):'' @ [CHR 0x0A]
       @ replicate 180 (CHR ''c'') @ [CHR 0x0A]
       @ ''Give rebuttal or acceptance of the opinion of the other side, and an improvement.''"
    "codex_prompt ''limit'' 2 (replicate 180 (CHR ''g''))
     = ''Debate topic: limit'' @ [CHR 0x0A] @ ''Debate round: 2'' @ [CHR 0x0A]
       @ ''Latest opinion of the other side (Gemini):'' @ [CHR 0x0A]
       @ replicate 180 (CHR ''g'') @ [CHR 0x0A]
       @ ''Answer the opinion of the other side, split into rebuttal and acceptance.''"
    by (simp_all add: gemini_prompt_def codex_prompt_def join_lines_def show_int_def digits.simps)
  have t: "js_trim ''limit'' = ''limit''" "js_trim ''OK'' = ''OK''"
    by (simp_all add: js_trim_def is_ws_def)
  have n: "replicate 180 (CHR ''c'') \<noteq> ''agreed''" "replicate 180 (CHR ''g'') \<noteq> ''agreed''"
    by (auto dest: arg_cong [where f = length])
  have r: "map (\<lambda>e. length (e_response e))
       (the (logs (run demo_cfg (\<lambda>a. []) Map.empty Map.empty demo_limit_run) ''run_s_x''))
     = [180, 180]"
    "map inv_prompt (filter is_turn (calls (run demo_cfg (\<lambda>a. []) Map.empty Map.empty demo_limit_run)))
     = [opening_prompt ''limit'',
        gemini_prompt ''limit'' 1 (replicate 180 (CHR ''c'')),
        codex_prompt ''limit'' 2 (replicate 180 (CHR ''g''))]"
    "map_option r_textLimit
        (summaries (run demo_cfg (\<lambda>a. []) Map.empty Map.empty demo_limit_run) ''run_s_x'')
     = Some None"
    by (simp_all add: demo_limit_run_def demo_cfg_def demo_result_def demo_connect_def
        engine_unfold t n)
  show ?thesis using p r by simp
qed

lemma settle_id: "inv s \<Longrightarrow> settle s = s"
  by (auto simp: settle_def inv_def)

text \<open>
  C6, as amended. While the debate status is running or pause requested,
  \<open>connectAgent\<close> is rejected for every agent, the runner is not called and nothing
  changes: the operation leaves every engine with such a status as it was, and the event
  leaves every reached state with such a status as it was. In every other status, paused
  and stopping among them, \<open>connectAgent\<close> passes the check, marks the agent as
  connecting and sends the probe to the runner.
\<close>

theorem connect_guard:
  "(d_status (debate s) = Running \<or> d_status (debate s) = PauseRequested \<longrightarrow>
      connectAgent_begin s a rs = Inl ConnectWhileRunning \<and> perform cfg s (Connect a rs) = s)
   \<and> (d_status (debate (run cfg persisted sums lgs evs)) = Running
        \<or> d_status (debate (run cfg persisted sums lgs evs)) = PauseRequested \<longrightarrow>
        step cfg (run cfg persisted sums lgs evs) (Connect a rs) = run cfg persisted sums lgs evs)
   \<and> (d_status (debate s) \<noteq> Running \<and> d_status (debate s) \<noteq> PauseRequested \<longrightarrow>
        (\<exists>t. connectAgent_begin s a rs = Inr t \<and> calls t = calls s @ [probe s a rs]
             \<and> pending t = pending s @ [probe s a rs]
             \<and> ses_status (agents t a) = Connecting))"
proof -
  let ?r = "run cfg persisted sums lgs evs"
  have one: "d_status (debate s) = Running \<or> d_status (debate s) = PauseRequested \<longrightarrow>
      connectAgent_begin s a rs = Inl ConnectWhileRunning \<and> perform cfg s (Connect a rs) = s"
    for s
    by (auto simp: connectAgent_begin_def perform_def or_unchanged_def)
  have two: "d_status (debate ?r) = Running \<or> d_status (debate ?r) = PauseRequested \<longrightarrow>
        step cfg ?r (Connect a rs) = ?r"
  proof
    assume st: "d_status (debate ?r) = Running \<or> d_status (debate ?r) = PauseRequested"
    have i: "inv ?r" by (rule run_inv)
    then have "wake ?r = ?r" by (simp add: wake_id inv_def)
    then show "step cfg ?r (Connect a rs) = ?r"
      using one [of ?r] st settle_id [OF i] by (simp add: step_def)
  qed
  have three: "d_status (debate s) \<noteq> Running \<and> d_status (debate s) \<noteq> PauseRequested \<longrightarrow>
        (\<exists>t. connectAgent_begin s a rs = Inr t \<and> calls t = calls s @ [probe s a rs]
             \<and> pending t = pending s @ [probe s a rs]
             \<and> ses_status (agents t a) = Connecting)"
    by (simp add: connectAgent_begin_def probe_def setAgentStatus_agent)
  show ?thesis using one [of s] two three by blast
qed

theorem connect_guard_witness:
  "d_status (debate (run demo_cfg (\<lambda>a. []) Map.empty Map.empty demo_started)) = Running
   \<and> connectAgent_begin (run demo_cfg (\<lambda>a. []) Map.empty Map.empty demo_started) Gemini None
       = Inl ConnectWhileRunning
   \<and> step demo_cfg (run demo_cfg (\<lambda>a. []) Map.empty Map.empty demo_started) (Connect Gemini None)
       = run demo_cfg (\<lambda>a. []) Map.empty Map.empty demo_started"
  using connect_guard [of "run demo_cfg (\<lambda>a. []) Map.empty Map.empty demo_started" Gemini None
      demo_cfg "\<lambda>a. []" Map.empty Map.empty demo_started]
    demo_started_running(1)
  by simp

text \<open>
  C6 as stated fails: in the paused state of a run and in the stopping state of a run,
  both with \<open>executionPromise\<close> set, \<open>connectAgent\<close> is not rejected and its probe is
  sent to the runner; in the stopping state that is a second outstanding call beside the
  turn of round 1.
\<close>

theorem connect_counterexample:
  "d_status (debate (run demo_cfg (\<lambda>a. []) Map.empty Map.empty demo_paused_run)) = Paused
   \<and> executionPromise (run demo_cfg (\<lambda>a. []) Map.empty Map.empty demo_paused_run)
   \<and> connectAgent_begin (run demo_cfg (\<lambda>a. []) Map.empty Map.empty demo_paused_run) Codex None
       \<noteq> Inl ConnectWhileRunning
   \<and> map inv_agent (pending (run demo_cfg (\<lambda>a. []) Map.empty Map.empty
                              (demo_paused_run @ [Connect Codex None]))) = [Codex]
   \<and> d_status (debate (run demo_cfg (\<lambda>a. []) Map.empty Map.empty (demo_started @ [Stop])))
       = Stopping
   \<and> executionPromise (run demo_cfg (\<lambda>a. []) Map.empty Map.empty (demo_started @ [Stop]))
   \<and> map inv_round (pending (run demo_cfg (\<lambda>a. []) Map.empty Map.empty
                              (demo_started @ [Stop, Connect Gemini None]))) = [Some 1, None]"
  by (simp add: demo_paused_run_def demo_defs engine_defs)

lemma runAgent_close_zero:
  "runAgent_close lib opts (Some 0) out err =
     Inr \<lparr>res_stdout = out, res_stderr = err,
           res_text = extractText out (tryParseJson lib out),
           res_sessionId =
             (if extractSessionId lib out (tryParseJson lib out) \<noteq> []
              then extractSessionId lib out (tryParseJson lib out)
              else case opt_sessionId opts of Some v \<Rightarrow> v | None \<Rightarrow> []),
           res_command = runAgent_command opts\<rparr>"
  by (auto simp: runAgent_close_def Let_def truthy_def split: option.splits)

text \<open>
  C10, as amended. When the process exits with status zero, \<open>runAgent\<close> resolves, and
  the session id of its result is the one extracted from the output if one is found,
  otherwise the session id of the options, otherwise the empty string; so a call with a
  non-empty session id never reports an empty one. The session id \<open>connectAgent\<close>
  passes is the supplied one when one is supplied, be it the empty string, and the stored
  one otherwise: when that id is not empty, the probe that exits with status zero makes
  the agent ready with the session id of the result, which is persisted.
\<close>

theorem session_id_of_result:
  "(\<exists>res. runAgent_close lib opts (Some 0) out err = Inr res
         \<and> res_sessionId res =
             (if extractSessionId lib out (tryParseJson lib out) \<noteq> []
              then extractSessionId lib out (tryParseJson lib out)
              else case opt_sessionId opts of Some v \<Rightarrow> v | None \<Rightarrow> [])
         \<and> (truthy (opt_sessionId opts) \<longrightarrow> res_sessionId res \<noteq> []))
   \<and> (resolvedSessionId s a rs \<noteq> []
        \<and> opt_sessionId opts = inv_sessionId (probe s a rs) \<longrightarrow>
        (\<exists>res t'. runAgent_close lib opts (Some 0) out err = Inr res
           \<and> connectAgent_end t a (Resolved res) = Inr t'
           \<and> ses_status (agents t' a) = Ready
           \<and> ses_sessionId (agents t' a) = res_sessionId res
           \<and> sessions t' a = res_sessionId res))"
proof -
  let ?x = "extractSessionId lib out (tryParseJson lib out)"
  let ?res = "\<lparr>res_stdout = out, res_stderr = err,
           res_text = extractText out (tryParseJson lib out),
           res_sessionId = (if ?x \<noteq> [] then ?x
              else case opt_sessionId opts of Some v \<Rightarrow> v | None \<Rightarrow> []),
           res_command = runAgent_command opts\<rparr>"
  have z: "runAgent_close lib opts (Some 0) out err = Inr ?res" by (rule runAgent_close_zero)
  have one: "truthy (opt_sessionId opts) \<longrightarrow> res_sessionId ?res \<noteq> []"
    by (auto simp: truthy_def split: option.splits)
  have two: "resolvedSessionId s a rs \<noteq> [] \<and> opt_sessionId opts = inv_sessionId (probe s a rs)
      \<longrightarrow> (\<exists>t'. connectAgent_end t a (Resolved ?res) = Inr t'
           \<and> ses_status (agents t' a) = Ready
           \<and> ses_sessionId (agents t' a) = res_sessionId ?res
           \<and> sessions t' a = res_sessionId ?res)"
    by (auto simp: probe_def or_undefined_def connectAgent_end_def setAgentStatus_agent
        truthy_def upsert_def setAgentStatus_def emit_def)
  show ?thesis using z one two by auto
qed

theorem session_id_of_result_witness:
  "resolvedSessionId demo_stored Codex None = ''abc''
   \<and> opt_sessionId (probe_options demo_stored Codex None)
       = inv_sessionId (probe demo_stored Codex None)
   \<and> truthy (opt_sessionId (probe_options demo_stored Codex None))
   \<and> (case runAgent_close demo_lib (probe_options demo_stored Codex None) (Some 0) ''OK'' [] of
         Inl e \<Rightarrow> False
       | Inr res \<Rightarrow>
           res_sessionId res = ''abc''
           \<and> (case connectAgent_end demo_stored Codex (Resolved res) of
                 Inl e \<Rightarrow> False
               | Inr t \<Rightarrow> ses_status (agents t Codex) = Ready))"
proof -
  have h: "resolvedSessionId demo_stored Codex None = ''abc''"
    "opt_sessionId (probe_options demo_stored Codex None)
       = inv_sessionId (probe demo_stored Codex None)"
    "truthy (opt_sessionId (probe_options demo_stored Codex None))"
    by (simp_all add: demo_stored_def init_def resolvedSessionId_def probe_options_def probe_def
        or_undefined_def truthy_def)
  have x: "extractSessionId demo_lib ''OK'' (tryParseJson demo_lib ''OK'') = []"
    by (simp add: extractSessionId_def tryParseJson_def demo_lib_def js_trim_def is_ws_def Let_def)
  from session_id_of_result [of demo_lib "probe_options demo_stored Codex None" "''OK''" "[]"
      demo_stored Codex None demo_stored]
  obtain res t' where r: "runAgent_close demo_lib (probe_options demo_stored Codex None) (Some 0) ''OK'' [] = Inr res"
    "res_sessionId res = (case opt_sessionId (probe_options demo_stored Codex None) of Some v \<Rightarrow> v | None \<Rightarrow> [])"
    "connectAgent_end demo_stored Codex (Resolved res) = Inr t'" "ses_status (agents t' Codex) = Ready"
    using h x by auto
  have "res_sessionId res = ''abc''"
    using r(2) by (simp add: probe_options_def or_undefined_def demo_stored_def init_def resolvedSessionId_def)
  then show ?thesis using h r by simp
qed

text \<open>
  C10 as stated fails for a stored session id with an empty string supplied: the empty
  string is taken instead of the stored id, the probe runs without a session id, and with
  the output \<open>OK\<close> (which \<open>JSON.parse\<close> refuses and neither expression matches, as
  \<open>demo_lib\<close> has it) no session id is extracted and \<open>connectAgent\<close> fails.
\<close>

theorem session_id_counterexample:
  "ses_sessionId (agents demo_stored Codex) = ''abc''
   \<and> opt_sessionId (probe_options demo_stored Codex (Some []))
       = inv_sessionId (last (calls (perform demo_cfg demo_stored (Connect Codex (Some [])))))
   \<and> opt_sessionId (probe_options demo_stored Codex (Some [])) = None
   \<and> (case runAgent_close demo_lib (probe_options demo_stored Codex (Some [])) (Some 0) ''OK'' [] of
         Inl e \<Rightarrow> False
       | Inr res \<Rightarrow>
           res_sessionId res = []
           \<and> (case connectAgent_end (perform demo_cfg demo_stored (Connect Codex (Some [])))
                      Codex (Resolved res) of
                 Inl (msg, t) \<Rightarrow> msg = msg_no_session Codex
                                \<and> ses_status (agents t Codex) = AgentError
               | Inr t \<Rightarrow> False))"
  by (simp add: demo_stored_def demo_lib_def probe_options_def runAgent_close_def
      extractSessionId_def tryParseJson_def js_trim_def is_ws_def engine_defs)

end
